theory Spec2Isabelle
  imports Complex_Main "HOL-Library.AList"
begin

section \<open>Data model\<close>

text \<open>
  This theory embeds \<^verbatim>\<open>improve_definitions.py\<close>: the partition function, the record
  decoder, the definition cleaner, the batch/retry engine \<^verbatim>\<open>generate\<close> and the part of
  \<^verbatim>\<open>main\<close> that builds the output rows and the exit status.

  A Python \<^verbatim>\<open>str\<close> is a \<open>string\<close>, a list of characters with code points below 256
  (the Latin-1 range, which holds the Spanish letters of the word lists); the character
  classes below are Python's on that range. A Python \<^verbatim>\<open>dict\<close> is an association list
  with distinct keys in insertion order: \<^verbatim>\<open>d[k] = v\<close> is \<open>AList.update k v d\<close> (the
  value is replaced in place when the key exists, the pair is appended otherwise) and
  \<^verbatim>\<open>d.get(k, dflt)\<close> is \<open>dict_get d k dflt\<close>.
\<close>

subsection \<open>Errors\<close>

text \<open>
  Every exception that can leave a function of the program is a value:
  \<open>ValueError\<close> is Python's exception of that name (raised by \<^verbatim>\<open>range\<close> on a zero step
  and by \<^verbatim>\<open>read_input_csv\<close>), \<open>TransportError\<close> stands for whatever the HTTP request
  of \<^verbatim>\<open>ollama_chat_stream_collect_content\<close> raises. A function that can raise returns
  \<open>error + 'a\<close>.
\<close>

datatype error = ValueError string | TransportError

subsection \<open>Dictionaries\<close>

definition dict_get :: "('k \<times> 'v) list \<Rightarrow> 'k \<Rightarrow> 'v \<Rightarrow> 'v" where
  "dict_get d k dflt = (case map_of d k of None \<Rightarrow> dflt | Some v \<Rightarrow> v)"

subsection \<open>Rows of the input and output tables\<close>

record RowIn =
  word :: string
  duolingo_definition :: string

record RowOut =
  word :: string
  duolingo_definition :: string
  model_definition :: string
  cleaned_definition :: string

section \<open>Strings\<close>

text \<open>\<^verbatim>\<open>str.isspace\<close>, which is also the class \<^verbatim>\<open>\s\<close> of \<^verbatim>\<open>re\<close>, below code point 256.\<close>

definition is_space :: "char \<Rightarrow> bool" where
  "is_space c \<longleftrightarrow>
     c \<in> set [CHR 0x09, CHR 0x0A, CHR 0x0B, CHR 0x0C, CHR 0x0D, CHR 0x1C, CHR 0x1D,
              CHR 0x1E, CHR 0x1F, CHR 0x20, CHR 0x85, CHR 0xA0]"

text \<open>The line boundaries of \<^verbatim>\<open>str.splitlines\<close> below code point 256.\<close>

definition is_linebreak :: "char \<Rightarrow> bool" where
  "is_linebreak c \<longleftrightarrow>
     c \<in> set [CHR 0x0A, CHR 0x0B, CHR 0x0C, CHR 0x0D, CHR 0x1C, CHR 0x1D, CHR 0x1E, CHR 0x85]"

text \<open>
  The class \<^verbatim>\<open>\w\<close> of \<^verbatim>\<open>re\<close> on a \<^verbatim>\<open>str\<close> pattern: alphanumeric or underscore.
\<close>

definition is_word :: "char \<Rightarrow> bool" where
  "is_word c \<longleftrightarrow>
     (let n = (of_char c :: nat) in
        (0x30 \<le> n \<and> n \<le> 0x39) \<or> (0x41 \<le> n \<and> n \<le> 0x5A) \<or> n = 0x5F \<or>
        (0x61 \<le> n \<and> n \<le> 0x7A) \<or> n = 0xAA \<or> n = 0xB2 \<or> n = 0xB3 \<or> n = 0xB5 \<or>
        n = 0xB9 \<or> n = 0xBA \<or> (0xBC \<le> n \<and> n \<le> 0xBE) \<or> (0xC0 \<le> n \<and> n \<le> 0xD6) \<or>
        (0xD8 \<le> n \<and> n \<le> 0xF6) \<or> 0xF8 \<le> n)"

text \<open>The characters of the class \<^verbatim>\<open>[,;:.!?]\<close>.\<close>

definition is_punct :: "char \<Rightarrow> bool" where
  "is_punct c \<longleftrightarrow> c \<in> set '',;:.!?''"

text \<open>
  A literal ASCII lower-case letter \<open>p\<close> of a pattern compiled with \<^verbatim>\<open>re.IGNORECASE\<close>
  matches \<open>p\<close> and its upper-case form (the code point 32 below).
\<close>

definition ieq :: "char \<Rightarrow> char \<Rightarrow> bool" where
  "ieq c p \<longleftrightarrow> c = p \<or> (of_char c :: nat) + 32 = of_char p"

text \<open>\<^verbatim>\<open>s.strip()\<close> and \<^verbatim>\<open>s.strip(chars)\<close>.\<close>

definition strip :: "string \<Rightarrow> string" where
  "strip s = rev (dropWhile is_space (rev (dropWhile is_space s)))"

definition strip_chars :: "string \<Rightarrow> string \<Rightarrow> string" where
  "strip_chars chars s =
     rev (dropWhile (\<lambda>c. c \<in> set chars) (rev (dropWhile (\<lambda>c. c \<in> set chars) s)))"

text \<open>
  \<^verbatim>\<open>s.splitlines()\<close>: \<open>cur\<close> is the line read so far. A carriage return followed by a
  line feed is one boundary, and no empty line is added after a final boundary.
\<close>

fun splitlines_from :: "string \<Rightarrow> string \<Rightarrow> string list" where
  "splitlines_from cur [] = (if cur = [] then [] else [cur])"
| "splitlines_from cur [c] = (if is_linebreak c then [cur] else [cur @ [c]])"
| "splitlines_from cur (c # d # cs) =
     (if c = CHR 0x0D \<and> d = CHR 0x0A then cur # splitlines_from [] cs
      else if is_linebreak c then cur # splitlines_from [] (d # cs)
      else splitlines_from (cur @ [c]) (d # cs))"

definition splitlines :: "string \<Rightarrow> string list" where
  "splitlines s = splitlines_from [] s"

text \<open>\<^verbatim>\<open>sep.join(xs)\<close>.\<close>

fun join :: "string \<Rightarrow> string list \<Rightarrow> string" where
  "join sep [] = []"
| "join sep [x] = x"
| "join sep (x # y # ys) = x @ sep @ join sep (y # ys)"

text \<open>
  \<^verbatim>\<open>s.replace(old, new)\<close> for a non-empty \<open>old\<close>: the occurrences of \<open>old\<close> are
  replaced from left to right, without overlap.
\<close>

function replace :: "string \<Rightarrow> string \<Rightarrow> string \<Rightarrow> string" where
  "replace old new [] = []"
| "replace old new (c # cs) =
     (if old \<noteq> [] \<and> take (length old) (c # cs) = old
      then new @ replace old new (drop (length old) (c # cs))
      else c # replace old new cs)"
  by pat_completeness auto
termination
  by (relation "measure (\<lambda>(old, new, s). length s)") auto

text \<open>The decimal digits of a natural number, as \<^verbatim>\<open>str(n)\<close> gives them.\<close>

function str_of_nat :: "nat \<Rightarrow> string" where
  "str_of_nat n =
     (if n < 10 then [char_of (48 + n)] else str_of_nat (n div 10) @ [char_of (48 + n mod 10)])"
  by pat_completeness auto
termination
  by (relation "measure id") auto

declare str_of_nat.simps [simp del]

section \<open>Partitioning: \<^verbatim>\<open>chunk_list\<close>\<close>

text \<open>
  \<^verbatim>\<open>range(i, stop, step)\<close> for a positive step, as the list of its elements.
\<close>

function py_range :: "nat \<Rightarrow> nat \<Rightarrow> nat \<Rightarrow> nat list" where
  "py_range i stop step =
     (if 0 < step \<and> i < stop then i # py_range (i + step) stop step else [])"
  by pat_completeness auto
termination
  by (relation "measure (\<lambda>(i, stop, step). stop - i)") auto

declare py_range.simps [simp del]

text \<open>
  \<^verbatim>\<open>def chunk_list(xs, n): return [xs[i:i+n] for i in range(0, len(xs), n)]\<close>

  \<open>n\<close> is a Python int (it comes from \<^verbatim>\<open>argparse\<close> with \<^verbatim>\<open>type=int\<close>): a zero step
  makes \<^verbatim>\<open>range\<close> raise \<^verbatim>\<open>ValueError\<close>, a negative step gives the empty range (the
  start \<open>0\<close> is never above \<^verbatim>\<open>len(xs)\<close>), and a slice \<^verbatim>\<open>xs[i:i+n]\<close> is clamped to
  the list.
\<close>

definition chunk_list :: "'a list \<Rightarrow> int \<Rightarrow> error + 'a list list" where
  "chunk_list xs n =
     (if n = 0 then Inl (ValueError ''range() arg 3 must not be zero'')
      else if n < 0 then Inr []
      else Inr (map (\<lambda>i. take (nat n) (drop i xs)) (py_range 0 (length xs) (nat n))))"

section \<open>Record decoding: \<^verbatim>\<open>parse_ndjson_word_defs\<close>\<close>

text \<open>
  What \<^verbatim>\<open>json.loads\<close> returns: \<^verbatim>\<open>None\<close>, a bool, an int, a float, a \<^verbatim>\<open>str\<close>, a list
  or a \<^verbatim>\<open>dict\<close> with \<^verbatim>\<open>str\<close> keys. The decoder only asks whether the value is a
  \<^verbatim>\<open>dict\<close> and whether two of its entries are of type \<^verbatim>\<open>str\<close>.
\<close>

datatype json =
    JNull
  | JBool bool
  | JInt int
  | JFloat real
  | JStr string
  | JList "json list"
  | JDict "(string \<times> json) list"

text \<open>
  \<^verbatim>\<open>json.loads\<close> belongs to Python's library and is a parameter of the model: a function
  from the line to the decoded value, or to the text \<^verbatim>\<open>str(e)\<close> of the exception it
  raises (the decoder catches every \<^verbatim>\<open>Exception\<close>).
\<close>

type_synonym loads = "string \<Rightarrow> string + json"

text \<open>
  The body of the loop of \<^verbatim>\<open>parse_ndjson_word_defs\<close> for the line \<open>line\<close> with number
  \<open>idx\<close>: the message appended to \<^verbatim>\<open>errors\<close>, or the pair written to \<^verbatim>\<open>out\<close>.
\<close>

definition decode_line :: "loads \<Rightarrow> nat \<Rightarrow> string \<Rightarrow> string + (string \<times> string)" where
  "decode_line json_loads idx line =
     (case json_loads line of
        Inl e \<Rightarrow>
          Inl (''Line '' @ str_of_nat idx @ '': invalid JSON ('' @ e @ ''): '' @ take 160 line)
      | Inr obj \<Rightarrow>
          (case obj of
             JDict kvs \<Rightarrow>
               (case (map_of kvs ''word'', map_of kvs ''definition'') of
                  (Some (JStr w), Some (JStr d)) \<Rightarrow> Inr (w, d)
                | _ \<Rightarrow> Inl (''Line '' @ str_of_nat idx @ '': word/definition not strings''))
           | _ \<Rightarrow> Inl (''Line '' @ str_of_nat idx @ '': JSON not an object'')))"

fun parse_lines ::
  "loads \<Rightarrow> nat \<Rightarrow> string list \<Rightarrow> (string \<times> string) list \<Rightarrow> string list \<Rightarrow>
   (string \<times> string) list \<times> string list" where
  "parse_lines json_loads idx [] out errors = (out, errors)"
| "parse_lines json_loads idx (line # lines) out errors =
     (case decode_line json_loads idx line of
        Inl msg \<Rightarrow> parse_lines json_loads (idx + 1) lines out (errors @ [msg])
      | Inr (w, d) \<Rightarrow> parse_lines json_loads (idx + 1) lines (AList.update w d out) errors)"

text \<open>\<^verbatim>\<open>lines = [ln.strip() for ln in content.splitlines() if ln.strip()]\<close>\<close>

definition record_lines :: "string \<Rightarrow> string list" where
  "record_lines content = map strip (filter (\<lambda>line. strip line \<noteq> []) (splitlines content))"

definition parse_ndjson_word_defs ::
  "loads \<Rightarrow> string \<Rightarrow> (string \<times> string) list \<times> string list" where
  "parse_ndjson_word_defs json_loads content =
     parse_lines json_loads 1 (record_lines content) [] []"

section \<open>The definition cleaner: \<^verbatim>\<open>post_fix_definition\<close>\<close>

text \<open>
  Each call of \<^verbatim>\<open>re.sub\<close> is a scan from left to right: at a position where the
  pattern matches, the match is replaced and the scan goes on after it; elsewhere the
  character is kept and the scan moves one position.
\<close>

text \<open>
  \<^verbatim>\<open>\b\<close> between the characters \<open>prev\<close> and \<open>nxt\<close> (\<open>None\<close> at either end of the
  string): exactly one of the two is a word character.
\<close>

definition word_boundary :: "char option \<Rightarrow> char option \<Rightarrow> bool" where
  "word_boundary prev nxt \<longleftrightarrow>
     (case prev of None \<Rightarrow> False | Some c \<Rightarrow> is_word c) \<noteq>
     (case nxt of None \<Rightarrow> False | Some c \<Rightarrow> is_word c)"

text \<open>
  \<^verbatim>\<open>\boneself\b\<close> with \<^verbatim>\<open>re.IGNORECASE\<close> matches at the head of \<open>s\<close>, where \<open>prev\<close>
  is the character before \<open>s\<close>.
\<close>

definition oneself_at :: "char option \<Rightarrow> string \<Rightarrow> bool" where
  "oneself_at prev s \<longleftrightarrow>
     length s \<ge> 7 \<and> list_all2 ieq (take 7 s) ''oneself'' \<and>
     word_boundary prev (Some (hd s)) \<and>
     word_boundary (Some (s ! 6)) (case drop 7 s of [] \<Rightarrow> None | c # _ \<Rightarrow> Some c)"

text \<open>\<^verbatim>\<open>re.sub(r"\boneself\b", "", defn, flags=re.IGNORECASE)\<close>\<close>

function sub_oneself_from :: "char option \<Rightarrow> string \<Rightarrow> string" where
  "sub_oneself_from prev [] = []"
| "sub_oneself_from prev (c # cs) =
     (if oneself_at prev (c # cs) then sub_oneself_from (Some ((c # cs) ! 6)) (drop 7 (c # cs))
      else c # sub_oneself_from (Some c) cs)"
  by pat_completeness auto
termination
  by (relation "measure (\<lambda>(prev, s). length s)") auto

definition sub_oneself :: "string \<Rightarrow> string" where
  "sub_oneself s = sub_oneself_from None s"

text \<open>
  \<^verbatim>\<open>SUBJECT_PREFIX_PATTERN = re.compile(r"^\((I|you|he / she / it|we|they / you-plural)\)\s+")\<close>

  \<open>subject_prefix_end s\<close> is \<^verbatim>\<open>m.end()\<close> for \<^verbatim>\<open>m = SUBJECT_PREFIX_PATTERN.match(s)\<close>,
  and \<open>None\<close> when there is no match: the alternatives are tried in their order, and
  \<^verbatim>\<open>\s+\<close> takes the whole run of white space after the closing parenthesis, which
  must not be empty.
\<close>

definition subjects :: "string list" where
  "subjects = [''I'', ''you'', ''he / she / it'', ''we'', ''they / you-plural'']"

definition subject_end :: "string \<Rightarrow> string \<Rightarrow> nat option" where
  "subject_end a s =
     (let h = ''('' @ a @ '')''; r = drop (length h) s
      in if take (length h) s = h \<and> takeWhile is_space r \<noteq> []
         then Some (length h + length (takeWhile is_space r)) else None)"

fun first_subject_end :: "string list \<Rightarrow> string \<Rightarrow> nat option" where
  "first_subject_end [] s = None"
| "first_subject_end (a # as) s =
     (case subject_end a s of Some e \<Rightarrow> Some e | None \<Rightarrow> first_subject_end as s)"

definition subject_prefix_end :: "string \<Rightarrow> nat option" where
  "subject_prefix_end s = first_subject_end subjects s"

text \<open>
  \<^verbatim>\<open>re.sub(r"\([^)]*\)", "", rest)\<close>: an opening parenthesis matches together with
  everything up to the next closing parenthesis, when there is one.
\<close>

function strip_parens :: "string \<Rightarrow> string" where
  "strip_parens [] = []"
| "strip_parens (c # cs) =
     (if c = CHR ''('' \<and> CHR '')'' \<in> set cs
      then strip_parens (tl (dropWhile (\<lambda>x. x \<noteq> CHR '')'') cs))
      else c # strip_parens cs)"
  by pat_completeness auto
termination
proof (relation "measure length")
  fix c :: char and cs :: string
  have "length (tl (dropWhile (\<lambda>x. x \<noteq> CHR '')'') cs)) \<le> length cs"
    using length_dropWhile_le [of "\<lambda>x. x \<noteq> CHR '')''" cs] by simp
  then show "(tl (dropWhile (\<lambda>x. x \<noteq> CHR '')'') cs), c # cs) \<in> measure length"
    by simp
qed auto

text \<open>\<^verbatim>\<open>re.sub(r"\s+", " ", cleaned)\<close>\<close>

function collapse_ws :: "string \<Rightarrow> string" where
  "collapse_ws [] = []"
| "collapse_ws (c # cs) =
     (if is_space c then CHR '' '' # collapse_ws (dropWhile is_space cs)
      else c # collapse_ws cs)"
  by pat_completeness auto
termination
proof (relation "measure length")
  fix c :: char and cs :: string
  have "length (dropWhile is_space cs) \<le> length cs"
    by (rule length_dropWhile_le)
  then show "(dropWhile is_space cs, c # cs) \<in> measure length"
    by simp
qed auto

text \<open>
  \<^verbatim>\<open>re.sub(r"\s+([,;:.!?])", r"\1", cleaned)\<close>: a run of white space matches only as a
  whole and only when a punctuation mark follows it; the mark is kept.
\<close>

function fix_punct :: "string \<Rightarrow> string" where
  "fix_punct [] = []"
| "fix_punct (c # cs) =
     (if is_space c then
        (case dropWhile is_space cs of
           [] \<Rightarrow> c # fix_punct cs
         | p # r \<Rightarrow> if is_punct p then p # fix_punct r else c # fix_punct cs)
      else c # fix_punct cs)"
  by pat_completeness auto
termination
proof (relation "measure length")
  fix c p :: char and cs r :: string
  assume "dropWhile is_space cs = p # r"
  then have "length (p # r) \<le> length cs"
    by (metis length_dropWhile_le)
  then show "(r, c # cs) \<in> measure length"
    by simp
qed auto

text \<open>
  The local constant \<^verbatim>\<open>KEEP_IT_PARENS = True\<close> of \<^verbatim>\<open>post_fix_definition\<close>, and the
  statement that it selects: with \<open>keep\<close>, the tokens \<^verbatim>\<open>(it)\<close> are replaced by the
  placeholder before the parentheses are removed and restored afterwards.
\<close>

definition KEEP_IT_PARENS :: bool where
  "KEEP_IT_PARENS = True"

definition strip_rest :: "bool \<Rightarrow> string \<Rightarrow> string" where
  "strip_rest keep rest =
     (if keep
      then replace ''__KEEP_IT__'' ''(it)''
             (strip_parens (replace ''(it)'' ''__KEEP_IT__'' rest))
      else strip_parens rest)"

text \<open>
  \<^verbatim>\<open>prefix\<close> and \<^verbatim>\<open>rest\<close> of \<^verbatim>\<open>post_fix_definition\<close>: the string is cut at the end of
  the match of the subject prefix, and not at all without a match.
\<close>

definition split_subject :: "string \<Rightarrow> string \<times> string" where
  "split_subject defn =
     (case subject_prefix_end defn of
        Some e \<Rightarrow> (take e defn, drop e defn)
      | None \<Rightarrow> ([], defn))"

text \<open>
  The statements of \<^verbatim>\<open>post_fix_definition\<close> up to the recombination (the removal of
  \<^verbatim>\<open>oneself\<close> and of the parentheses), and those after it (white space, punctuation
  and the final trim).
\<close>

definition remove_stage :: "bool \<Rightarrow> string \<Rightarrow> string" where
  "remove_stage keep defn0 =
     (let defn = sub_oneself defn0;
          (prefix, rest) = split_subject defn;
          rest = strip_rest keep rest
      in prefix @ rest)"

definition normalize_stage :: "string \<Rightarrow> string" where
  "normalize_stage combined =
     (let cleaned = strip combined;
          cleaned = strip (collapse_ws cleaned);
          cleaned = fix_punct cleaned;
          cleaned = strip_chars '' -'' cleaned
      in cleaned)"

text \<open>
  The body of \<^verbatim>\<open>post_fix_definition\<close> for a value \<open>keep\<close> of \<^verbatim>\<open>KEEP_IT_PARENS\<close>, and
  the function as the source fixes it.
\<close>

definition post_fix_with :: "bool \<Rightarrow> string \<Rightarrow> string" where
  "post_fix_with keep defn = normalize_stage (remove_stage keep defn)"

definition post_fix_definition :: "string \<Rightarrow> string" where
  "post_fix_definition defn = post_fix_with KEEP_IT_PARENS defn"

section \<open>The batch and retry engine: \<^verbatim>\<open>generate\<close>\<close>

text \<open>
  The generation endpoint is outside the program. \<open>chat cfg n prompt\<close> is what
  \<^verbatim>\<open>ollama_chat_stream_collect_content\<close> returns for the request number \<open>n\<close> of the
  run (counted from 0) with the user prompt \<open>prompt\<close>: the collected text, or the
  exception that leaves the call. The other arguments of the call (URL, model, system
  prompt, temperature, top-p) are the same for every request of a run.
  \<open>json_loads\<close> is the parameter of the decoder; the other fields are the keyword
  arguments of \<^verbatim>\<open>generate\<close>. \<^verbatim>\<open>time.sleep\<close> changes nothing that is modelled.
\<close>

record config =
  chat :: "nat \<Rightarrow> string \<Rightarrow> error + string"
  json_loads :: loads
  batch_size :: int
  max_retries :: int
  retry_batch_size :: int
  apply_postfixes :: bool

text \<open>
  The requests of a run, in the order in which they are issued: the request of an
  initial batch, or the request of a sub-batch in the retry round \<open>attempt\<close>. The trace is
  not a variable of the source; it records the calls of
  \<^verbatim>\<open>ollama_chat_stream_collect_content\<close>.
\<close>

datatype event = Initial "string list" | Retry int "string list"


fun event_words :: "event \<Rightarrow> string list" where
  "event_words (Initial ws) = ws"
| "event_words (Retry attempt ws) = ws"

type_synonym results = "(string \<times> (string \<times> string)) list"

text \<open>
  The loop \<^verbatim>\<open>for w in batch\<close> (and \<^verbatim>\<open>for w in rb\<close>): a word with a definition that is
  not blank is written to \<^verbatim>\<open>results\<close>, any other word is appended to the missing list.
\<close>

fun reconcile ::
  "bool \<Rightarrow> (string \<times> string) list \<Rightarrow> string list \<Rightarrow> results \<Rightarrow> string list \<Rightarrow>
   results \<times> string list" where
  "reconcile ap parsed_map [] res missing = (res, missing)"
| "reconcile ap parsed_map (w # ws) res missing =
     (let d = dict_get parsed_map w [] in
      if strip d = [] then reconcile ap parsed_map ws res (missing @ [w])
      else reconcile ap parsed_map ws
             (AList.update w (d, if ap then post_fix_definition d else d) res) missing)"

text \<open>
  One request: the call of the endpoint with the words joined by newlines, and the
  decoding of its answer. The trace grows by the event \<open>ev\<close>.
\<close>

definition request ::
  "config \<Rightarrow> event \<Rightarrow> event list \<Rightarrow> error + ((string \<times> string) list \<times> event list)" where
  "request cfg ev trace =
     (case chat cfg (length trace) (join [CHR 0x0A] (event_words ev)) of
        Inl e \<Rightarrow> Inl e
      | Inr content \<Rightarrow>
          Inr (fst (parse_ndjson_word_defs (json_loads cfg) content), trace @ [ev]))"

text \<open>The loop \<^verbatim>\<open>for rb in chunk_list(missing, retry_batch_size)\<close> of one retry round.\<close>

fun retry_round ::
  "config \<Rightarrow> int \<Rightarrow> string list list \<Rightarrow> results \<Rightarrow> string list \<Rightarrow> event list \<Rightarrow>
   error + (results \<times> string list \<times> event list)" where
  "retry_round cfg attempt [] res next_missing trace = Inr (res, next_missing, trace)"
| "retry_round cfg attempt (rb # rbs) res next_missing trace =
     (case request cfg (Retry attempt rb) trace of
        Inl e \<Rightarrow> Inl e
      | Inr (retry_map, trace') \<Rightarrow>
          (case reconcile (apply_postfixes cfg) retry_map rb res next_missing of
             (res', next_missing') \<Rightarrow> retry_round cfg attempt rbs res' next_missing' trace'))"

text \<open>
  The loop \<^verbatim>\<open>while missing and attempt < max_retries\<close>. It returns the final values of
  \<^verbatim>\<open>attempt\<close>, \<^verbatim>\<open>missing\<close> and \<^verbatim>\<open>results\<close>.
\<close>

function retry_loop ::
  "config \<Rightarrow> int \<Rightarrow> string list \<Rightarrow> results \<Rightarrow> event list \<Rightarrow>
   error + (int \<times> string list \<times> results \<times> event list)" where
  "retry_loop cfg attempt missing res trace =
     (if missing \<noteq> [] \<and> attempt < max_retries cfg then
        (case chunk_list missing (retry_batch_size cfg) of
           Inl e \<Rightarrow> Inl e
         | Inr rbs \<Rightarrow>
             (case retry_round cfg (attempt + 1) rbs res [] trace of
                Inl e \<Rightarrow> Inl e
              | Inr (res', next_missing, trace') \<Rightarrow>
                  retry_loop cfg (attempt + 1) next_missing res' trace'))
      else Inr (attempt, missing, res, trace))"
  by pat_completeness auto
termination
  by (relation "measure (\<lambda>(cfg, attempt, missing, res, trace). nat (max_retries cfg - attempt))")
     auto

declare retry_loop.simps [simp del]

text \<open>
  \<^verbatim>\<open>for w in missing: if w not in results: results[w] = ("", "")\<close>
\<close>

fun fill_missing :: "string list \<Rightarrow> results \<Rightarrow> results" where
  "fill_missing [] res = res"
| "fill_missing (w # ws) res =
     fill_missing ws (if map_of res w = None then AList.update w ([], []) res else res)"

text \<open>The body of the loop \<^verbatim>\<open>for bi, batch in enumerate(batches, start=1)\<close>.\<close>

definition process_batch ::
  "config \<Rightarrow> string list \<Rightarrow> results \<times> event list \<Rightarrow> error + (results \<times> event list)" where
  "process_batch cfg batch st =
     (case st of (res, trace) \<Rightarrow>
        (case request cfg (Initial batch) trace of
           Inl e \<Rightarrow> Inl e
         | Inr (parsed_map, trace1) \<Rightarrow>
             (case reconcile (apply_postfixes cfg) parsed_map batch res [] of
                (res1, missing) \<Rightarrow>
                  (case retry_loop cfg 0 missing res1 trace1 of
                     Inl e \<Rightarrow> Inl e
                   | Inr (attempt, missing', res2, trace2) \<Rightarrow>
                       Inr (fill_missing missing' res2, trace2)))))"

fun run_batches ::
  "config \<Rightarrow> string list list \<Rightarrow> results \<times> event list \<Rightarrow> error + (results \<times> event list)" where
  "run_batches cfg [] st = Inr st"
| "run_batches cfg (batch # batches) st =
     (case process_batch cfg batch st of
        Inl e \<Rightarrow> Inl e
      | Inr st' \<Rightarrow> run_batches cfg batches st')"

text \<open>\<^verbatim>\<open>generate\<close> returns \<^verbatim>\<open>results\<close>; the model returns the trace of the run with it.\<close>

definition generate :: "config \<Rightarrow> string list \<Rightarrow> error + (results \<times> event list)" where
  "generate cfg words =
     (case chunk_list words (batch_size cfg) of
        Inl e \<Rightarrow> Inl e
      | Inr batches \<Rightarrow> run_batches cfg batches ([], []))"

section \<open>The tables and the exit status: \<^verbatim>\<open>read_input_csv\<close> and \<^verbatim>\<open>main\<close>\<close>

text \<open>
  \<^verbatim>\<open>csv.DictReader\<close> is outside the program: \<open>fieldnames\<close> is its header and a row is a
  function from the column name to the cell, \<open>None\<close> for a cell that the line does
  not have. \<^verbatim>\<open>fields = {h.strip(): h for h in reader.fieldnames}\<close> keeps the last
  header with a given stripped name.
\<close>

definition field_lookup :: "string list \<Rightarrow> string \<Rightarrow> string option" where
  "field_lookup fieldnames name = find (\<lambda>h. strip h = name) (rev fieldnames)"

definition duo_candidates :: "string list" where
  "duo_candidates = [''duolingo_definition'', ''duolingo'', ''definition'', ''duo_definition'']"

fun first_field :: "string list \<Rightarrow> string list \<Rightarrow> string option" where
  "first_field fieldnames [] = None"
| "first_field fieldnames (candidate # cs) =
     (case field_lookup fieldnames candidate of
        Some h \<Rightarrow> Some h
      | None \<Rightarrow> first_field fieldnames cs)"

text \<open>\<^verbatim>\<open>x or ""\<close> for a cell \<open>x\<close>.\<close>

definition or_empty :: "string option \<Rightarrow> string" where
  "or_empty x = (case x of None \<Rightarrow> [] | Some v \<Rightarrow> v)"

fun read_rows ::
  "string \<Rightarrow> string option \<Rightarrow> (string \<Rightarrow> string option) list \<Rightarrow> RowIn list" where
  "read_rows word_col duo_col [] = []"
| "read_rows word_col duo_col (r # rs) =
     (let w = strip (or_empty (r word_col)) in
      if w = [] then read_rows word_col duo_col rs
      else
        (let d = or_empty (case duo_col of Some c \<Rightarrow> r c | None \<Rightarrow> Some [])
         in \<lparr>RowIn.word = w, RowIn.duolingo_definition = strip d\<rparr> #
            read_rows word_col duo_col rs))"

definition read_input_csv ::
  "string list \<Rightarrow> (string \<Rightarrow> string option) list \<Rightarrow> error + RowIn list" where
  "read_input_csv fieldnames rows =
     (if fieldnames = [] then Inl (ValueError ''Input CSV has no header row.'')
      else
        (case field_lookup fieldnames ''word'' of
           None \<Rightarrow> Inl (ValueError ''Input CSV must contain a \"word\" column.'')
         | Some word_col \<Rightarrow>
             Inr (read_rows word_col (first_field fieldnames duo_candidates) rows)))"

text \<open>
  The loop \<^verbatim>\<open>for r in inputs\<close> of \<^verbatim>\<open>main\<close>: the output rows and \<^verbatim>\<open>missing_count\<close>.
\<close>

fun build_rows :: "results \<Rightarrow> RowIn list \<Rightarrow> RowOut list \<Rightarrow> nat \<Rightarrow> RowOut list \<times> nat" where
  "build_rows word_to_defs [] out_rows missing_count = (out_rows, missing_count)"
| "build_rows word_to_defs (r # rs) out_rows missing_count =
     (case dict_get word_to_defs (RowIn.word r) ([], []) of
        (model_def, cleaned_def) \<Rightarrow>
          build_rows word_to_defs rs
            (out_rows @
               [\<lparr>RowOut.word = RowIn.word r,
                 RowOut.duolingo_definition = RowIn.duolingo_definition r,
                 model_definition = model_def,
                 cleaned_definition = cleaned_def\<rparr>])
            (if strip model_def = [] then missing_count + 1 else missing_count))"

text \<open>
  \<^verbatim>\<open>main\<close> from the rows that \<^verbatim>\<open>read_input_csv\<close> returned: the rows handed to
  \<^verbatim>\<open>write_output_csv\<close> (\<open>None\<close> when the function is not reached) and the value
  that \<^verbatim>\<open>main\<close> returns, which is the exit status of the run. An exception leaves
  \<^verbatim>\<open>main\<close> without a return value.
\<close>

definition main_rows :: "config \<Rightarrow> RowIn list \<Rightarrow> error + (RowOut list option \<times> int)" where
  "main_rows cfg inputs =
     (if inputs = [] then Inr (None, 2)
      else
        (case generate cfg (map RowIn.word inputs) of
           Inl e \<Rightarrow> Inl e
         | Inr (word_to_defs, trace) \<Rightarrow>
             (case build_rows word_to_defs inputs [] 0 of
                (out_rows, missing_count) \<Rightarrow>
                  Inr (Some out_rows, if missing_count \<noteq> 0 then 1 else 0))))"

definition main ::
  "config \<Rightarrow> string list \<Rightarrow> (string \<Rightarrow> string option) list \<Rightarrow>
   error + (RowOut list option \<times> int)" where
  "main cfg fieldnames rows =
     (case read_input_csv fieldnames rows of
        Inl e \<Rightarrow> Inl e
      | Inr inputs \<Rightarrow> main_rows cfg inputs)"


section \<open>Concrete decoders and endpoints\<close>

text \<open>
  For the evaluation of the model on concrete runs: a decoder given by a finite table
  of lines with what \<^verbatim>\<open>json.loads\<close> does on them (the value it returns, or the text of
  the exception it raises), which rejects every other line, and an endpoint given by the list of its answers in the order of the
  requests (the empty text once the list is used up).
\<close>

definition table_loads :: "(string \<times> (string + json)) list \<Rightarrow> loads" where
  "table_loads tab line =
     (case map_of tab line of
        Some r \<Rightarrow> r
      | None \<Rightarrow> Inl ''Expecting value: line 1 column 1 (char 0)'')"

definition scripted_chat :: "string list \<Rightarrow> nat \<Rightarrow> string \<Rightarrow> error + string" where
  "scripted_chat answers n prompt = Inr (if n < length answers then answers ! n else [])"

text \<open>
  Two well-formed lines for the same word, and a decoder for them, for two lines that
  are valid JSON without being records, and for a line that is not JSON.
\<close>

definition good_line :: string where
  "good_line = ''{\"word\": \"comer\", \"definition\": \"to eat\"}''"

definition good_line2 :: string where
  "good_line2 = ''{\"word\": \"comer\", \"definition\": \"to have lunch\"}''"

definition demo_loads :: loads where
  "demo_loads = table_loads
     [(good_line, Inr (JDict [(''word'', JStr ''comer''), (''definition'', JStr ''to eat'')])),
      (good_line2,
         Inr (JDict [(''word'', JStr ''comer''), (''definition'', JStr ''to have lunch'')])),
      (''[1, 2]'', Inr (JList [JInt 1, JInt 2])),
      (''{\"word\": \"beber\"}'', Inr (JDict [(''word'', JStr ''beber'')])),
      (''{not json'',
         Inl ''Expecting property name enclosed in double quotes: line 1 column 2 (char 1)'')]"

text \<open>
  Two runs on the one-row table \<^verbatim>\<open>word,duolingo_definition\<close> / \<^verbatim>\<open>comer, eat \<close>: with an
  endpoint that answers every request with the empty text, and with an endpoint that
  answers the first request with the record of the word.
\<close>

definition demo_fieldnames :: "string list" where
  "demo_fieldnames = [''word'', ''duolingo_definition'']"

definition demo_row :: "string \<Rightarrow> string option" where
  "demo_row = map_of [(''word'', ''comer''), (''duolingo_definition'', '' eat '')]"


definition answering_cfg :: config where
  "answering_cfg =
     \<lparr>chat = scripted_chat [good_line], json_loads = demo_loads, batch_size = 100,
      max_retries = 2, retry_batch_size = 25, apply_postfixes = True\<rparr>"


definition single_cfg :: config where
  "single_cfg =
     \<lparr>chat = scripted_chat [good_line], json_loads = demo_loads, batch_size = 1,
      max_retries = 1, retry_batch_size = 1, apply_postfixes = True\<rparr>"





text \<open>
  A run whose answer defines \<^verbatim>\<open>gustar\<close> as \<^verbatim>\<open>to like (it)\<close>, with the cleaning of the
  definitions enabled and, for the switch \<^verbatim>\<open>--no-clean\<close>, disabled.
\<close>

definition gustar_line :: string where
  "gustar_line = ''{\"word\": \"gustar\", \"definition\": \"to like (it)\"}''"

definition gustar_cfg :: config where
  "gustar_cfg =
     \<lparr>chat = scripted_chat [gustar_line],
      json_loads = table_loads
        [(gustar_line,
            Inr (JDict [(''word'', JStr ''gustar''), (''definition'', JStr ''to like (it)'')]))],
      batch_size = 100, max_retries = 2, retry_batch_size = 25, apply_postfixes = True\<rparr>"

definition gustar_no_clean_cfg :: config where
  "gustar_no_clean_cfg = gustar_cfg\<lparr>apply_postfixes := False\<rparr>"

section \<open>Notions used in the statements\<close>





text \<open>
  \<open>answer_map cfg n ev\<close> is the mapping decoded from the answer to the request \<open>ev\<close>
  when it is the request number \<open>n\<close> of the run (the RawResult of that request), and
  \<open>produced cfg trace w d\<close> says that some request of the trace carried the word \<open>w\<close>
  and that the answer to it gives \<open>w\<close> the raw definition \<open>d\<close>.
\<close>

definition answer_map :: "config \<Rightarrow> nat \<Rightarrow> event \<Rightarrow> (string \<times> string) list" where
  "answer_map cfg n ev =
     (case chat cfg n (join [CHR 0x0A] (event_words ev)) of
        Inl e \<Rightarrow> []
      | Inr content \<Rightarrow> fst (parse_ndjson_word_defs (json_loads cfg) content))"

definition produced :: "config \<Rightarrow> event list \<Rightarrow> string \<Rightarrow> string \<Rightarrow> bool" where
  "produced cfg trace w d \<longleftrightarrow>
     list_ex (\<lambda>n. w \<in> set (event_words (trace ! n)) \<and>
                  dict_get (answer_map cfg n (trace ! n)) w [] = d) [0..<length trace]"

text \<open>
  A later state of the engine extends an earlier one: the trace has grown at its end,
  and each entry of \<^verbatim>\<open>results\<close> is the entry of the earlier state, or a definition that
  is not blank and was produced by a request of the trace, or the empty marker for a
  word that had no entry.
\<close>

definition extends ::
  "config \<Rightarrow> results \<times> event list \<Rightarrow> results \<times> event list \<Rightarrow> bool" where
  "extends cfg s s' \<longleftrightarrow>
     (\<exists>es. snd s' = snd s @ es) \<and>
     (\<forall>w. map_of (fst s') w = map_of (fst s) w \<or>
          (\<exists>d c. map_of (fst s') w = Some (d, c) \<and> strip d \<noteq> [] \<and> produced cfg (snd s') w d) \<or>
          (map_of (fst s) w = None \<and> map_of (fst s') w = Some ([], [])))"






text \<open>
  Two properties of a string that the second half of the cleaner establishes: every
  white-space character is a single space between two other characters, and no
  white-space character stands directly before a punctuation mark.
\<close>

definition single_spaced :: "string \<Rightarrow> bool" where
  "single_spaced s \<longleftrightarrow>
     list_all (\<lambda>c. is_space c \<longrightarrow> c = CHR '' '') s \<and>
     successively (\<lambda>a b. \<not> (is_space a \<and> is_space b)) s"

definition tight_punct :: "string \<Rightarrow> bool" where
  "tight_punct s \<longleftrightarrow> successively (\<lambda>a b. \<not> (is_space a \<and> is_punct b)) s"

section \<open>The retry schedule, stated from the answers\<close>









text \<open>
  Every entry of \<^verbatim>\<open>results\<close> with a raw definition that is not empty has, as its cleaned
  definition, the raw definition cleaned with the tokens \<^verbatim>\<open>(it)\<close> kept, or the raw
  definition itself when the cleaning is disabled (\<open>ap\<close> false).
\<close>

definition cleaned_keeping_it :: "bool \<Rightarrow> results \<Rightarrow> bool" where
  "cleaned_keeping_it ap res \<longleftrightarrow>
     (\<forall>w d c. map_of res w = Some (d, c) \<and> d \<noteq> [] \<longrightarrow>
              c = (if ap then post_fix_with True d else d))"

section \<open>Properties of the partition\<close>

lemma div_add_step: "0 < (n::nat) \<Longrightarrow> (m + n) div n = Suc (m div n)"
  by simp

lemma range_len_step:
  fixes i stop n :: nat
  assumes "0 < n" "i < stop"
  shows "(stop - i + n - 1) div n = Suc ((stop - (i + n) + n - 1) div n)"
proof (cases "i + n \<le> stop")
  case True
  have "stop - i + n - 1 = (stop - (i + n) + n - 1) + n"
    using True assms by arith
  then have "(stop - i + n - 1) div n = ((stop - (i + n) + n - 1) + n) div n"
    by (rule arg_cong)
  also have "\<dots> = Suc ((stop - (i + n) + n - 1) div n)"
    using assms(1) by (rule div_add_step)
  finally show ?thesis .
next
  case False
  have a: "stop - (i + n) + n - 1 = n - 1" using False by arith
  have b: "stop - i + n - 1 = (stop - i - 1) + n" using assms by arith
  have c: "stop - i - 1 < n" using False assms by arith
  have "(stop - i + n - 1) div n = ((stop - i - 1) + n) div n"
    using b by (rule arg_cong)
  also have "\<dots> = Suc ((stop - i - 1) div n)"
    using assms(1) by (rule div_add_step)
  also have "\<dots> = Suc 0" using c by (simp only: div_less)
  finally have l: "(stop - i + n - 1) div n = Suc 0" .
  have "(n - 1) div n = 0" using assms(1) by (intro div_less) arith
  then show ?thesis using l a by (simp only:)
qed

lemma py_range_length:
  "0 < n \<Longrightarrow> length (py_range i stop n) = (stop - i + n - 1) div n"
proof (induction i stop n rule: py_range.induct)
  case (1 i stop step)
  show ?case
  proof (cases "i < stop")
    case True
    have "length (py_range i stop step) = Suc (length (py_range (i + step) stop step))"
      using True 1(2) by (subst py_range.simps) simp
    also have "\<dots> = Suc ((stop - (i + step) + step - 1) div step)"
      using 1 True by simp
    also have "\<dots> = (stop - i + step - 1) div step"
      using range_len_step [OF 1(2) True] by simp
    finally show ?thesis .
  next
    case False
    then have "stop - i + step - 1 < step" using 1(2) by arith
    then have "(stop - i + step - 1) div step = 0" by (rule div_less)
    moreover have "py_range i stop step = []"
      using False by (subst py_range.simps) simp
    ultimately show ?thesis by simp
  qed
qed

lemma py_range_concat:
  "0 < n \<Longrightarrow>
   concat (map (\<lambda>i. take n (drop i xs)) (py_range i (length xs) n)) = drop i xs"
proof (induction i "length xs" n rule: py_range.induct)
  case (1 i step)
  show ?case
  proof (cases "i < length xs")
    case True
    have "concat (map (\<lambda>i. take step (drop i xs)) (py_range i (length xs) step))
          = take step (drop i xs) @
            concat (map (\<lambda>i. take step (drop i xs)) (py_range (i + step) (length xs) step))"
      using True 1(2) by (subst py_range.simps) simp
    also have "\<dots> = take step (drop i xs) @ drop (i + step) xs"
      using 1 True by simp
    also have "\<dots> = take step (drop i xs) @ drop step (drop i xs)"
      by (simp add: add.commute)
    also have "\<dots> = drop i xs"
      by (rule append_take_drop_id)
    finally show ?thesis .
  next
    case False
    then show ?thesis
      by (subst py_range.simps) simp
  qed
qed

lemma py_range_bound: "k \<in> set (py_range i stop n) \<Longrightarrow> k < stop"
proof (induction i stop n rule: py_range.induct)
  case (1 i stop step)
  show ?case
  proof (cases "0 < step \<and> i < stop")
    case True
    then have "py_range i stop step = i # py_range (i + step) stop step"
      by (subst py_range.simps) simp
    with 1(2) have "k = i \<or> k \<in> set (py_range (i + step) stop step)"
      by simp
    then show ?thesis using 1(1) True by auto
  next
    case False
    then have "py_range i stop step = []"
      by (subst py_range.simps) simp
    with 1(2) show ?thesis by simp
  qed
qed

lemma ceil_div_nat:
  fixes L n :: nat
  assumes "0 < n"
  shows "\<lceil>real L / real n\<rceil> = int ((L + n - 1) div n)"
proof -
  define q where "q = (L + n - 1) div n"
  have lo: "q * n \<le> L + n - 1"
    unfolding q_def by (rule div_times_less_eq_dividend)
  have hi: "L + n - 1 < n + q * n"
    unfolding q_def using assms by (rule dividend_less_div_times)
  have a: "L \<le> q * n" using hi assms by arith
  have b: "q * n < L + n" using lo assms by arith
  have ra: "real L \<le> real q * real n"
    using a by (metis of_nat_mult of_nat_le_iff)
  have rb: "real q * real n < real L + real n"
    using b by (metis of_nat_mult of_nat_add of_nat_less_iff)
  have n0: "0 < real n" using assms by simp
  have "real L / real n \<le> real q"
    using ra n0 by (simp add: pos_divide_le_eq)
  moreover have "real q - 1 < real L / real n"
  proof -
    have "(real q - 1) * real n < real L"
      using rb by (simp add: algebra_simps)
    then show ?thesis
      using n0 by (simp only: pos_less_divide_eq)
  qed
  ultimately have "\<lceil>real L / real n\<rceil> = int q"
    by (intro ceiling_unique) simp_all
  then show ?thesis by (simp only: q_def)
qed

text \<open>The partition for a positive size, without the error cases.\<close>

lemma chunk_list_pos:
  "0 < n \<Longrightarrow> chunk_list xs n = Inr (map (\<lambda>i. take (nat n) (drop i xs)) (py_range 0 (length xs) (nat n)))"
  by (simp add: chunk_list_def)

lemma chunk_list_concat:
  assumes "0 < n" "chunk_list xs n = Inr gs"
  shows "concat gs = xs"
  using assms py_range_concat [of "nat n" xs 0] by (simp add: chunk_list_pos)

lemma chunk_list_groups:
  assumes "0 < n" "chunk_list xs n = Inr gs" "g \<in> set gs"
  shows "g \<noteq> [] \<and> int (length g) \<le> n"
proof -
  from assms obtain k where k: "k \<in> set (py_range 0 (length xs) (nat n))" "g = take (nat n) (drop k xs)"
    by (auto simp: chunk_list_pos)
  from k(1) have "k < length xs" by (rule py_range_bound)
  then show ?thesis using k(2) assms(1) by auto
qed

lemma chunk_list_length:
  assumes "0 < n" "chunk_list xs n = Inr gs"
  shows "int (length gs) = \<lceil>real (length xs) / real_of_int n\<rceil>"
proof -
  have "length gs = (length xs + nat n - 1) div nat n"
    using assms py_range_length [of "nat n" 0 "length xs"] by (auto simp: chunk_list_pos)
  moreover have "real_of_int n = real (nat n)" using assms(1) by simp
  ultimately show ?thesis
    using ceil_div_nat [of "nat n" "length xs"] assms(1) by simp
qed

text \<open>
  Claim C4. For every list \<open>xs\<close> and every batch size \<open>B \<ge> 1\<close>, \<open>chunk_list\<close> returns
  (it does not raise) \<open>\<lceil>length xs / B\<rceil>\<close> groups whose concatenation is \<open>xs\<close>, so
  that the groups are contiguous, in order, and no element is dropped or duplicated;
  every group is non-empty and has at most \<open>B\<close> elements.
\<close>

theorem chunk_list_partition:
  assumes "1 \<le> B"
  shows "\<exists>gs. chunk_list xs B = Inr gs \<and> concat gs = xs \<and>
           int (length gs) = \<lceil>real (length xs) / real_of_int B\<rceil> \<and>
           (\<forall>g \<in> set gs. g \<noteq> [] \<and> int (length g) \<le> B)"
proof -
  from assms have pos: "0 < B" by simp
  then obtain gs where gs: "chunk_list xs B = Inr gs"
    by (simp add: chunk_list_pos)
  show ?thesis
    using gs chunk_list_concat [OF pos gs] chunk_list_length [OF pos gs] chunk_list_groups [OF pos gs]
    by blast
qed

text \<open>The example of the specification: three words in batches of two.\<close>

theorem chunk_list_partition_witness:
  "(1::int) \<le> 2 \<and>
   chunk_list [''comer'', ''beber'', ''vivir''] 2 = Inr [[''comer'', ''beber''], [''vivir'']] \<and>
   (\<exists>gs. chunk_list [''comer'', ''beber'', ''vivir''] 2 = Inr gs \<and>
      concat gs = [''comer'', ''beber'', ''vivir''] \<and>
      int (length gs) = \<lceil>real (length [''comer'', ''beber'', ''vivir'']) / real_of_int 2\<rceil> \<and>
      (\<forall>g \<in> set gs. g \<noteq> [] \<and> int (length g) \<le> 2))"
proof -
  have h: "(1::int) \<le> 2" by simp
  have "chunk_list [''comer'', ''beber'', ''vivir''] 2 = Inr [[''comer'', ''beber''], [''vivir'']]"
    by code_simp
  then show ?thesis
    using h chunk_list_partition [OF h, of "[''comer'', ''beber'', ''vivir'']"] by blast
qed

section \<open>Properties of the record decoder\<close>















section \<open>Properties of the definition cleaner\<close>

subsection \<open>Trimming\<close>

lemma trim_middle:
  "\<exists>p s. x = p @ rev (dropWhile P (rev (dropWhile P x))) @ s"
proof -
  have a: "x = takeWhile P x @ dropWhile P x" by simp
  have "rev (dropWhile P x) = takeWhile P (rev (dropWhile P x)) @ dropWhile P (rev (dropWhile P x))"
    by simp
  then have "dropWhile P x =
     rev (dropWhile P (rev (dropWhile P x))) @ rev (takeWhile P (rev (dropWhile P x)))"
    by (metis rev_append rev_rev_ident)
  with a show ?thesis by metis
qed

lemma trim_ends:
  assumes "t = rev (dropWhile P (rev (dropWhile P x)))" and "t \<noteq> []"
  shows "\<not> P (hd t) \<and> \<not> P (last t)"
proof -
  let ?z = "dropWhile P x"
  have z: "?z \<noteq> []"
  proof
    assume "?z = []"
    then have "t = []" using assms(1) by (simp del: dropWhile_eq_Nil_conv)
    with assms(2) show False by simp
  qed
  then have hz: "\<not> P (hd ?z)" by (rule hd_dropWhile)
  from assms have "dropWhile P (rev ?z) \<noteq> []" by simp
  then have "\<not> P (hd (dropWhile P (rev ?z)))" by (rule hd_dropWhile)
  then have l: "\<not> P (last t)"
    using assms by (simp add: last_rev)
  obtain s where "?z = t @ s"
    using assms(1) by (metis append_take_drop_id rev_append rev_rev_ident takeWhile_dropWhile_id)
  with assms(2) have "hd t = hd ?z" by simp
  with hz l show ?thesis by simp
qed

lemma trim_id:
  assumes "x = [] \<or> (\<not> P (hd x) \<and> \<not> P (last x))"
  shows "rev (dropWhile P (rev (dropWhile P x))) = x"
proof (cases x)
  case Nil
  then show ?thesis by simp
next
  case (Cons a y)
  with assms have "\<not> P (hd x)" "\<not> P (last x)" by simp_all
  have a: "dropWhile P x = x"
    using Cons \<open>\<not> P (hd x)\<close> by simp
  have "rev x \<noteq> []" using Cons by simp
  then obtain b ys where r: "rev x = b # ys" by (cases "rev x") auto
  have "hd (rev x) = last x" using Cons by (simp add: hd_rev)
  with r \<open>\<not> P (last x)\<close> have "\<not> P b" by simp
  then have "dropWhile P (b # ys) = b # ys" by simp
  with r have "dropWhile P (rev x) = rev x" by (simp only:)
  with a show ?thesis by (simp only: rev_rev_ident)
qed

subsection \<open>White space and punctuation\<close>

lemma punct_not_space: "is_punct c \<Longrightarrow> \<not> is_space c"
  by (auto simp: is_punct_def is_space_def)

lemma successively_middle:
  "successively R (p @ m @ s) \<Longrightarrow> successively R m"
  by (simp add: successively_append_iff)

lemma single_spaced_middle: "single_spaced (p @ m @ s) \<Longrightarrow> single_spaced m"
  unfolding single_spaced_def by (simp add: successively_append_iff)

lemma tight_punct_middle: "tight_punct (p @ m @ s) \<Longrightarrow> tight_punct m"
  unfolding tight_punct_def by (rule successively_middle)

lemma single_spaced_strip: "single_spaced x \<Longrightarrow> single_spaced (strip x)"
  using trim_middle [of x is_space] single_spaced_middle unfolding strip_def by metis

lemma single_spaced_strip_chars: "single_spaced x \<Longrightarrow> single_spaced (strip_chars cs x)"
  using trim_middle [of x "\<lambda>c. c \<in> set cs"] single_spaced_middle unfolding strip_chars_def by metis

lemma tight_punct_strip_chars: "tight_punct x \<Longrightarrow> tight_punct (strip_chars cs x)"
  using trim_middle [of x "\<lambda>c. c \<in> set cs"] tight_punct_middle unfolding strip_chars_def by metis

lemma collapse_ws_hd:
  "collapse_ws x \<noteq> [] \<Longrightarrow> is_space (hd (collapse_ws x)) \<longleftrightarrow> is_space (hd x)"
  by (cases x) (auto simp: is_space_def)

lemma collapse_ws_Nil: "collapse_ws x = [] \<longleftrightarrow> x = []"
  by (cases x) auto

lemma single_spaced_collapse: "single_spaced (collapse_ws x)"
proof (induction x rule: collapse_ws.induct)
  case 1
  show ?case by (simp add: single_spaced_def)
next
  case (2 c cs)
  show ?case
  proof (cases "is_space c")
    case True
    let ?r = "dropWhile is_space cs"
    have ih: "single_spaced (collapse_ws ?r)" using 2(1) True by simp
    have "collapse_ws ?r = [] \<or> \<not> is_space (hd (collapse_ws ?r))"
    proof (cases "?r = []")
      case False
      then have "\<not> is_space (hd ?r)" by (rule hd_dropWhile)
      then show ?thesis using collapse_ws_hd [of ?r] by blast
    next
      case True
      then have "collapse_ws ?r = []" by (simp only: collapse_ws.simps)
      then show ?thesis by blast
    qed
    with ih True show ?thesis
      by (auto simp: single_spaced_def successively_Cons)
  next
    case False
    with 2(2) show ?thesis
      by (auto simp: single_spaced_def successively_Cons)
  qed
qed

lemma collapse_ws_id: "single_spaced x \<Longrightarrow> collapse_ws x = x"
proof (induction x rule: collapse_ws.induct)
  case 1
  show ?case by simp
next
  case (2 c cs)
  from 2(3) have tl: "single_spaced cs"
    by (auto simp: single_spaced_def successively_Cons)
  show ?case
  proof (cases "is_space c")
    case True
    with 2(3) have c: "c = CHR '' ''" and nx: "cs = [] \<or> \<not> is_space (hd cs)"
      by (auto simp: single_spaced_def successively_Cons)
    from nx have d: "dropWhile is_space cs = cs"
      by (cases cs) auto
    from 2(1) [OF True] tl d have "collapse_ws cs = cs" by simp
    with True c d show ?thesis by simp
  next
    case False
    with 2(2) tl show ?thesis by simp
  qed
qed

text \<open>The four cases of \<open>fix_punct\<close> on a string that is not empty.\<close>

lemma fix_punct_space_end:
  "is_space c \<Longrightarrow> dropWhile is_space cs = [] \<Longrightarrow> fix_punct (c # cs) = c # fix_punct cs"
  by (simp del: dropWhile_eq_Nil_conv)

lemma fix_punct_space_punct:
  "is_space c \<Longrightarrow> dropWhile is_space cs = p # r \<Longrightarrow> is_punct p \<Longrightarrow>
   fix_punct (c # cs) = p # fix_punct r"
  by simp

lemma fix_punct_space_other:
  "is_space c \<Longrightarrow> dropWhile is_space cs = p # r \<Longrightarrow> \<not> is_punct p \<Longrightarrow>
   fix_punct (c # cs) = c # fix_punct cs"
  by simp

lemma fix_punct_other: "\<not> is_space c \<Longrightarrow> fix_punct (c # cs) = c # fix_punct cs"
  by simp

lemma fix_punct_set: "set (fix_punct x) \<subseteq> set x"
proof (induction x rule: fix_punct.induct)
  case 1
  show ?case by simp
next
  case (2 c cs)
  show ?case
  proof (cases "is_space c")
    case sp: True
    show ?thesis
    proof (cases "dropWhile is_space cs")
      case Nil
      from 2(1) [OF sp Nil] show ?thesis
        unfolding fix_punct_space_end [OF sp Nil] by auto
    next
      case (Cons p r)
      have sub: "set (p # r) \<subseteq> set cs"
        using set_dropWhileD [of _ is_space cs] Cons by (metis subsetI)
      show ?thesis
      proof (cases "is_punct p")
        case True
        from 2(2) [OF sp Cons True] sub show ?thesis
          unfolding fix_punct_space_punct [OF sp Cons True] by auto
      next
        case False
        from 2(3) [OF sp Cons False] show ?thesis
          unfolding fix_punct_space_other [OF sp Cons False] by auto
      qed
    qed
  next
    case False
    from 2(4) [OF False] show ?thesis
      unfolding fix_punct_other [OF False] by auto
  qed
qed

text \<open>
  After a white-space character that \<open>fix_punct\<close> keeps, the result does not go on
  with a punctuation mark.
\<close>

lemma fix_punct_hd_punct:
  assumes "is_space c"
    and "dropWhile is_space cs = [] \<or> \<not> is_punct (hd (dropWhile is_space cs))"
    and "fix_punct cs \<noteq> []"
  shows "\<not> is_punct (hd (fix_punct cs))"
proof (cases cs)
  case Nil
  with assms(3) show ?thesis by simp
next
  case (Cons c2 cs')
  show ?thesis
  proof (cases "is_space c2")
    case True
    then have d: "dropWhile is_space cs = dropWhile is_space cs'"
      using Cons by simp
    have "fix_punct (c2 # cs') = c2 # fix_punct cs'"
    proof (cases "dropWhile is_space cs'")
      case Nil
      with True show ?thesis by (rule fix_punct_space_end)
    next
      case (Cons p r)
      with assms(2) d have "\<not> is_punct p" by simp
      with True Cons show ?thesis by (rule fix_punct_space_other)
    qed
    then have "hd (fix_punct cs) = c2"
      using Cons by simp
    with True punct_not_space show ?thesis by auto
  next
    case False
    then have "dropWhile is_space cs = cs" using Cons by simp
    with assms(2) Cons have "\<not> is_punct c2" by simp
    with False Cons show ?thesis by simp
  qed
qed

lemma tight_punct_fix: "tight_punct (fix_punct x)"
proof (induction x rule: fix_punct.induct)
  case 1
  show ?case by (simp add: tight_punct_def)
next
  case (2 c cs)
  show ?case
  proof (cases "is_space c")
    case sp: True
    show ?thesis
    proof (cases "dropWhile is_space cs")
      case Nil
      have "fix_punct cs = [] \<or> \<not> is_punct (hd (fix_punct cs))"
        using fix_punct_hd_punct [OF sp, of cs] Nil by auto
      with 2(1) [OF sp Nil] show ?thesis
        unfolding fix_punct_space_end [OF sp Nil]
        by (auto simp: tight_punct_def successively_Cons)
    next
      case (Cons p r)
      show ?thesis
      proof (cases "is_punct p")
        case True
        from 2(2) [OF sp Cons True] punct_not_space [OF True] show ?thesis
          unfolding fix_punct_space_punct [OF sp Cons True]
          by (auto simp: tight_punct_def successively_Cons)
      next
        case False
        have "fix_punct cs = [] \<or> \<not> is_punct (hd (fix_punct cs))"
          using fix_punct_hd_punct [OF sp, of cs] Cons False by auto
        with 2(3) [OF sp Cons False] show ?thesis
          unfolding fix_punct_space_other [OF sp Cons False]
          by (auto simp: tight_punct_def successively_Cons)
      qed
    qed
  next
    case False
    with 2(4) [OF False] show ?thesis
      unfolding fix_punct_other [OF False]
      by (auto simp: tight_punct_def successively_Cons)
  qed
qed

lemma fix_punct_hd:
  assumes "fix_punct y \<noteq> []" and "is_space (hd (fix_punct y))"
  shows "y \<noteq> [] \<and> is_space (hd y)"
proof (cases y)
  case Nil
  with assms(1) show ?thesis by simp
next
  case (Cons c cs)
  show ?thesis
  proof (cases "is_space c")
    case True
    with Cons show ?thesis by simp
  next
    case False
    then have "hd (fix_punct y) = c"
      unfolding Cons fix_punct_other [OF False] by simp
    with assms(2) False show ?thesis by simp
  qed
qed

lemma single_spaced_Cons:
  "single_spaced (c # cs) \<longleftrightarrow>
     (is_space c \<longrightarrow> c = CHR '' '') \<and> (cs = [] \<or> \<not> (is_space c \<and> is_space (hd cs))) \<and>
     single_spaced cs"
  by (auto simp: single_spaced_def successively_Cons)

lemma single_spaced_dropWhile_tl:
  assumes "single_spaced cs" and "dropWhile P cs = p # r"
  shows "single_spaced r"
proof -
  have "cs = takeWhile P cs @ r @ [] \<or> cs = (takeWhile P cs @ [p]) @ r @ []"
    using assms(2) by (metis append.assoc append_Cons append_Nil append_Nil2 takeWhile_dropWhile_id)
  then have "cs = (takeWhile P cs @ [p]) @ r @ []"
    using assms(2) by (metis append.assoc append_Cons append_Nil append_Nil2 takeWhile_dropWhile_id)
  with assms(1) show ?thesis
    using single_spaced_middle by metis
qed

lemma single_spaced_fix: "single_spaced x \<Longrightarrow> single_spaced (fix_punct x)"
proof (induction x rule: fix_punct.induct)
  case 1
  show ?case by (simp add: single_spaced_def)
next
  case (2 c cs)
  from 2(5) have c: "is_space c \<longrightarrow> c = CHR '' ''"
    and nx: "cs = [] \<or> \<not> (is_space c \<and> is_space (hd cs))"
    and tl: "single_spaced cs"
    by (simp_all add: single_spaced_Cons)
  have keep: "single_spaced (c # fix_punct cs)" if "single_spaced (fix_punct cs)"
  proof -
    have "fix_punct cs = [] \<or> \<not> (is_space c \<and> is_space (hd (fix_punct cs)))"
    proof (cases "fix_punct cs = []")
      case False
      show ?thesis
      proof (cases "is_space c \<and> is_space (hd (fix_punct cs))")
        case True
        with fix_punct_hd [OF False] have "cs \<noteq> [] \<and> is_space (hd cs)" by simp
        with nx True show ?thesis by simp
      qed simp
    qed simp
    with c that show ?thesis
      by (simp add: single_spaced_Cons)
  qed
  show ?case
  proof (cases "is_space c")
    case sp: True
    show ?thesis
    proof (cases "dropWhile is_space cs")
      case Nil
      from keep [OF 2(1) [OF sp Nil tl]] show ?thesis
        unfolding fix_punct_space_end [OF sp Nil] .
    next
      case (Cons p r)
      show ?thesis
      proof (cases "is_punct p")
        case True
        have "single_spaced r"
          using tl Cons by (rule single_spaced_dropWhile_tl)
        from 2(2) [OF sp Cons True this] punct_not_space [OF True] show ?thesis
          unfolding fix_punct_space_punct [OF sp Cons True]
          by (simp add: single_spaced_Cons)
      next
        case False
        from keep [OF 2(3) [OF sp Cons False tl]] show ?thesis
          unfolding fix_punct_space_other [OF sp Cons False] .
      qed
    qed
  next
    case False
    from keep [OF 2(4) [OF False tl]] show ?thesis
      unfolding fix_punct_other [OF False] .
  qed
qed

lemma tight_punct_Cons:
  "tight_punct (c # cs) \<longleftrightarrow>
     (cs = [] \<or> \<not> (is_space c \<and> is_punct (hd cs))) \<and> tight_punct cs"
  by (auto simp: tight_punct_def successively_Cons)

lemma fix_punct_id: "tight_punct x \<Longrightarrow> fix_punct x = x"
proof (induction x rule: fix_punct.induct)
  case 1
  show ?case by simp
next
  case (2 c cs)
  from 2(5) have tl: "tight_punct cs"
    by (simp add: tight_punct_Cons)
  show ?case
  proof (cases "is_space c")
    case sp: True
    show ?thesis
    proof (cases "dropWhile is_space cs")
      case Nil
      from 2(1) [OF sp Nil tl] show ?thesis
        unfolding fix_punct_space_end [OF sp Nil] by simp
    next
      case (Cons p r)
      show ?thesis
      proof (cases "is_punct p")
        case True
        have split: "c # cs = (c # takeWhile is_space cs) @ (p # r)"
          using Cons by (metis append_Cons takeWhile_dropWhile_id)
        have "is_space (last (c # takeWhile is_space cs))"
          using sp by (metis last_in_set list.distinct(1) set_ConsD set_takeWhileD)
        moreover have "successively (\<lambda>a b. \<not> (is_space a \<and> is_punct b))
                         ((c # takeWhile is_space cs) @ (p # r))"
          using 2(5) unfolding tight_punct_def split .
        then have "\<not> (is_space (last (c # takeWhile is_space cs)) \<and> is_punct (hd (p # r)))"
          unfolding successively_append_iff by blast
        ultimately show ?thesis using True by simp
      next
        case False
        from 2(3) [OF sp Cons False tl] show ?thesis
          unfolding fix_punct_space_other [OF sp Cons False] by simp
      qed
    qed
  next
    case False
    from 2(4) [OF False tl] show ?thesis
      unfolding fix_punct_other [OF False] by simp
  qed
qed

subsection \<open>The second half of the cleaner is idempotent\<close>

lemma normalize_stage_eq:
  "normalize_stage u = strip_chars '' -'' (fix_punct (strip (collapse_ws (strip u))))"
  by (simp add: normalize_stage_def)

lemma normalize_stage_tidy:
  "single_spaced (normalize_stage u) \<and> tight_punct (normalize_stage u)"
proof -
  have "single_spaced (strip (collapse_ws (strip u)))"
    by (intro single_spaced_strip single_spaced_collapse)
  then have "single_spaced (fix_punct (strip (collapse_ws (strip u))))"
    by (rule single_spaced_fix)
  then have a: "single_spaced (normalize_stage u)"
    unfolding normalize_stage_eq by (rule single_spaced_strip_chars)
  have "tight_punct (fix_punct (strip (collapse_ws (strip u))))"
    by (rule tight_punct_fix)
  then have "tight_punct (normalize_stage u)"
    unfolding normalize_stage_eq by (rule tight_punct_strip_chars)
  with a show ?thesis by simp
qed

lemma normalize_stage_ends:
  assumes "normalize_stage u \<noteq> []"
  shows "hd (normalize_stage u) \<notin> set '' -'' \<and> last (normalize_stage u) \<notin> set '' -''"
  using trim_ends [of "normalize_stage u" "\<lambda>c. c \<in> set '' -''"
      "fix_punct (strip (collapse_ws (strip u)))"] assms
  unfolding normalize_stage_eq strip_chars_def by blast

lemma single_spaced_space:
  "single_spaced t \<Longrightarrow> c \<in> set t \<Longrightarrow> is_space c \<Longrightarrow> c = CHR '' ''"
  by (auto simp: single_spaced_def list_all_iff)

lemma normalize_stage_fixed:
  assumes "single_spaced t" and "tight_punct t"
    and "t = [] \<or> (hd t \<notin> set '' -'' \<and> last t \<notin> set '' -'')"
  shows "normalize_stage t = t"
proof -
  have ends: "t = [] \<or> (\<not> is_space (hd t) \<and> \<not> is_space (last t))"
  proof (cases "t = []")
    case False
    then have "hd t \<in> set t" "last t \<in> set t" by simp_all
    with assms(1,3) False single_spaced_space [OF assms(1)] show ?thesis
      by (metis list.set_intros(1))
  qed simp
  have s: "strip t = t"
    unfolding strip_def using ends by (rule trim_id)
  have c: "collapse_ws t = t"
    using assms(1) by (rule collapse_ws_id)
  have f: "fix_punct t = t"
    using assms(2) by (rule fix_punct_id)
  have "strip_chars '' -'' t = t"
    unfolding strip_chars_def using assms(3) by (intro trim_id) blast
  with s c f show ?thesis
    by (simp add: normalize_stage_eq)
qed

lemma normalize_stage_idem: "normalize_stage (normalize_stage u) = normalize_stage u"
proof -
  have "normalize_stage u = [] \<or>
        (hd (normalize_stage u) \<notin> set '' -'' \<and> last (normalize_stage u) \<notin> set '' -'')"
    using normalize_stage_ends by blast
  with normalize_stage_tidy [of u] show ?thesis
    by (intro normalize_stage_fixed) simp_all
qed

text \<open>
  Claim C5 as stated fails: the removal of a parenthesised span can join the two halves
  of the word \<^verbatim>\<open>oneself\<close>, which only the next application of the cleaner removes.
\<close>

theorem cleaner_not_idempotent:
  "post_fix_definition ''one(x)self'' = ''oneself'' \<and>
   post_fix_definition (post_fix_definition ''one(x)self'') = [] \<and>
   post_fix_definition (post_fix_definition ''one(x)self'') \<noteq> post_fix_definition ''one(x)self''"
  by code_simp

text \<open>
  Claim C5, as the code has it. The second half of the cleaner (white space, punctuation
  and the final trim) is idempotent on every string, and the cleaner leaves its own
  output \<open>post_fix_definition s\<close> unchanged whenever its first half (the removal of
  \<^verbatim>\<open>oneself\<close> and of the parentheses outside the subject prefix) finds nothing to
  remove in that output.
\<close>

theorem cleaner_idempotent_when_nothing_to_remove:
  "normalize_stage (normalize_stage u) = normalize_stage u \<and>
   (remove_stage KEEP_IT_PARENS (post_fix_definition s) = post_fix_definition s \<longrightarrow>
    post_fix_definition (post_fix_definition s) = post_fix_definition s)"
proof (intro conjI impI)
  show "normalize_stage (normalize_stage u) = normalize_stage u"
    by (rule normalize_stage_idem)
next
  assume a: "remove_stage KEEP_IT_PARENS (post_fix_definition s) = post_fix_definition s"
  have "post_fix_definition (post_fix_definition s) =
          normalize_stage (remove_stage KEEP_IT_PARENS (post_fix_definition s))"
    by (simp add: post_fix_definition_def post_fix_with_def)
  also have "\<dots> = normalize_stage (post_fix_definition s)"
    using a by simp
  also have "\<dots> = normalize_stage (normalize_stage (remove_stage KEEP_IT_PARENS s))"
    by (simp add: post_fix_definition_def post_fix_with_def)
  also have "\<dots> = normalize_stage (remove_stage KEEP_IT_PARENS s)"
    by (rule normalize_stage_idem)
  also have "\<dots> = post_fix_definition s"
    by (simp add: post_fix_definition_def post_fix_with_def)
  finally show "post_fix_definition (post_fix_definition s) = post_fix_definition s" .
qed

text \<open>
  An output with a subject prefix and a protected \<^verbatim>\<open>(it)\<close>, in which nothing is left to
  remove.
\<close>

theorem cleaner_idempotent_when_nothing_to_remove_witness:
  "post_fix_definition ''(he / she / it) eats (food) , to like (it) .'' =
     ''(he / she / it) eats, to like (it).'' \<and>
   remove_stage KEEP_IT_PARENS
     (post_fix_definition ''(he / she / it) eats (food) , to like (it) .'') =
     post_fix_definition ''(he / she / it) eats (food) , to like (it) .'' \<and>
   post_fix_definition (post_fix_definition ''(he / she / it) eats (food) , to like (it) .'') =
     post_fix_definition ''(he / she / it) eats (food) , to like (it) .''"
proof -
  have a: "post_fix_definition ''(he / she / it) eats (food) , to like (it) .'' =
     ''(he / she / it) eats, to like (it).''"
    by code_simp
  have b: "remove_stage KEEP_IT_PARENS
     (post_fix_definition ''(he / she / it) eats (food) , to like (it) .'') =
     post_fix_definition ''(he / she / it) eats (food) , to like (it) .''"
    by code_simp
  show ?thesis
    using a b
      cleaner_idempotent_when_nothing_to_remove
        [of "[]" "''(he / she / it) eats (food) , to like (it) .''"]
    by simp
qed

section \<open>Properties of the output rows and of the exit status\<close>

text \<open>The output row of \<^verbatim>\<open>main\<close> for an input row.\<close>

lemma build_rows_eq:
  "build_rows defs rs out_rows mc =
     (out_rows @
        map (\<lambda>r. \<lparr>RowOut.word = RowIn.word r,
                   RowOut.duolingo_definition = RowIn.duolingo_definition r,
                   model_definition = fst (dict_get defs (RowIn.word r) ([], [])),
                   cleaned_definition = snd (dict_get defs (RowIn.word r) ([], []))\<rparr>) rs,
      mc + length (filter (\<lambda>r. strip (fst (dict_get defs (RowIn.word r) ([], []))) = []) rs))"
proof (induction rs arbitrary: out_rows mc)
  case Nil
  show ?case by simp
next
  case (Cons r rs)
  show ?case
    by (cases "dict_get defs (RowIn.word r) ([], [])") (simp add: Cons.IH)
qed

lemma main_rows_cases:
  assumes "main_rows cfg inputs = Inr (written, rc)"
  shows "(inputs = [] \<and> written = None \<and> rc = 2) \<or>
         (\<exists>defs trace. inputs \<noteq> [] \<and> generate cfg (map RowIn.word inputs) = Inr (defs, trace) \<and>
            written = Some (fst (build_rows defs inputs [] 0)) \<and>
            rc = (if snd (build_rows defs inputs [] 0) \<noteq> 0 then 1 else 0))"
proof (cases "inputs = []")
  case True
  with assms show ?thesis
    by (simp add: main_rows_def)
next
  case False
  with assms obtain defs trace where
    g: "generate cfg (map RowIn.word inputs) = Inr (defs, trace)"
    by (auto simp: main_rows_def split: sum.splits)
  obtain out_rows mc where b: "build_rows defs inputs [] 0 = (out_rows, mc)"
    by (cases "build_rows defs inputs [] 0")
  from assms False g b have "written = Some out_rows" "rc = (if mc \<noteq> 0 then 1 else 0)"
    by (simp_all add: main_rows_def)
  with False g b show ?thesis
    by simp
qed

text \<open>
  Claim C9. The external definition is carried through unmodified. For the rows
  \<open>inputs\<close> that \<^verbatim>\<open>read_input_csv\<close> returns (there is at least one) and for every run of
  \<^verbatim>\<open>main\<close> that returns, whatever the endpoint answers, the rows handed to
  \<^verbatim>\<open>write_output_csv\<close> correspond one to one, in order, to the input rows, with the
  same word and the same \<^verbatim>\<open>duolingo_definition\<close>.
\<close>

theorem duolingo_definition_carried_through:
  assumes "read_input_csv fieldnames rows = Inr inputs"
    and "inputs \<noteq> []"
    and "main cfg fieldnames rows = Inr (written, rc)"
  shows "\<exists>out_rows. written = Some out_rows \<and>
           map RowOut.word out_rows = map RowIn.word inputs \<and>
           map RowOut.duolingo_definition out_rows = map RowIn.duolingo_definition inputs"
proof -
  from assms(1,3) have "main_rows cfg inputs = Inr (written, rc)"
    by (simp add: main_def)
  from main_rows_cases [OF this] assms(2)
  obtain defs where "written = Some (fst (build_rows defs inputs [] 0))"
    by blast
  then show ?thesis
    by (simp add: build_rows_eq comp_def)
qed

theorem duolingo_definition_carried_through_witness:
  "read_input_csv demo_fieldnames [demo_row] =
     Inr [\<lparr>RowIn.word = ''comer'', RowIn.duolingo_definition = ''eat''\<rparr>] \<and>
   [\<lparr>RowIn.word = ''comer'', RowIn.duolingo_definition = ''eat''\<rparr>] \<noteq> [] \<and>
   main answering_cfg demo_fieldnames [demo_row] =
     Inr (Some [\<lparr>RowOut.word = ''comer'', RowOut.duolingo_definition = ''eat'',
                 model_definition = ''to eat'', cleaned_definition = ''to eat''\<rparr>], 0) \<and>
   (\<exists>out_rows.
      Some [\<lparr>RowOut.word = ''comer'', RowOut.duolingo_definition = ''eat'',
             model_definition = ''to eat'', cleaned_definition = ''to eat''\<rparr>] = Some out_rows \<and>
      map RowOut.word out_rows =
        map RowIn.word [\<lparr>RowIn.word = ''comer'', RowIn.duolingo_definition = ''eat''\<rparr>] \<and>
      map RowOut.duolingo_definition out_rows =
        map RowIn.duolingo_definition
          [\<lparr>RowIn.word = ''comer'', RowIn.duolingo_definition = ''eat''\<rparr>])"
proof -
  have a: "read_input_csv demo_fieldnames [demo_row] =
     Inr [\<lparr>RowIn.word = ''comer'', RowIn.duolingo_definition = ''eat''\<rparr>]"
    by code_simp
  have b: "[\<lparr>RowIn.word = ''comer'', RowIn.duolingo_definition = ''eat''\<rparr>] \<noteq> []"
    by simp
  have c: "main answering_cfg demo_fieldnames [demo_row] =
     Inr (Some [\<lparr>RowOut.word = ''comer'', RowOut.duolingo_definition = ''eat'',
                 model_definition = ''to eat'', cleaned_definition = ''to eat''\<rparr>], 0)"
    by code_simp
  show ?thesis
    using a b c duolingo_definition_carried_through [OF a b c] by blast
qed




section \<open>Properties of the batch and retry engine\<close>

subsection \<open>Single steps\<close>

lemma strip_Nil [simp]: "strip [] = []"
  by (simp add: strip_def)

lemma produced_iff:
  "produced cfg trace w d \<longleftrightarrow>
     (\<exists>n < length trace. w \<in> set (event_words (trace ! n)) \<and>
        dict_get (answer_map cfg n (trace ! n)) w [] = d)"
  by (auto simp: produced_def list_ex_iff)

lemma produced_mono: "produced cfg trace w d \<Longrightarrow> produced cfg (trace @ es) w d"
proof -
  assume "produced cfg trace w d"
  then obtain n where n: "n < length trace" "w \<in> set (event_words (trace ! n))"
    "dict_get (answer_map cfg n (trace ! n)) w [] = d"
    unfolding produced_iff by blast
  then have "n < length (trace @ es)" "(trace @ es) ! n = trace ! n"
    by (simp_all add: nth_append)
  with n show ?thesis
    unfolding produced_iff by metis
qed

lemma produced_last:
  "w \<in> set (event_words ev) \<Longrightarrow>
   produced cfg (trace @ [ev]) w (dict_get (answer_map cfg (length trace) ev) w [])"
  unfolding produced_iff by (intro exI [of _ "length trace"]) simp

lemma extends_refl: "extends cfg s s"
  by (simp add: extends_def)

lemma extends_trans:
  assumes "extends cfg s1 s2" and "extends cfg s2 s3"
  shows "extends cfg s1 s3"
proof -
  from assms obtain es1 es2 where
    t2: "snd s2 = snd s1 @ es1" and t3: "snd s3 = snd s2 @ es2"
    by (auto simp: extends_def)
  have "map_of (fst s3) w = map_of (fst s1) w \<or>
        (\<exists>d c. map_of (fst s3) w = Some (d, c) \<and> strip d \<noteq> [] \<and> produced cfg (snd s3) w d) \<or>
        (map_of (fst s1) w = None \<and> map_of (fst s3) w = Some ([], []))" for w
  proof -
    from assms(1) have a:
      "map_of (fst s2) w = map_of (fst s1) w \<or>
       (\<exists>d c. map_of (fst s2) w = Some (d, c) \<and> strip d \<noteq> [] \<and> produced cfg (snd s2) w d) \<or>
       (map_of (fst s1) w = None \<and> map_of (fst s2) w = Some ([], []))"
      by (simp add: extends_def)
    from assms(2) have b:
      "map_of (fst s3) w = map_of (fst s2) w \<or>
       (\<exists>d c. map_of (fst s3) w = Some (d, c) \<and> strip d \<noteq> [] \<and> produced cfg (snd s3) w d) \<or>
       (map_of (fst s2) w = None \<and> map_of (fst s3) w = Some ([], []))"
      by (simp add: extends_def)
    from b show ?thesis
    proof (elim disjE)
      assume same: "map_of (fst s3) w = map_of (fst s2) w"
      from a show ?thesis
      proof (elim disjE)
        assume "\<exists>d c. map_of (fst s2) w = Some (d, c) \<and> strip d \<noteq> [] \<and> produced cfg (snd s2) w d"
        then show ?thesis
          using same t3 produced_mono [of cfg "snd s2" w _ es2] by auto
      qed (use same in auto)
    next
      assume "map_of (fst s2) w = None \<and> map_of (fst s3) w = Some ([], [])"
      with a show ?thesis by auto
    qed auto
  qed
  moreover have "snd s3 = snd s1 @ (es1 @ es2)"
    using t2 t3 by simp
  ultimately show ?thesis
    unfolding extends_def by blast
qed


lemma extends_nonempty:
  assumes "extends cfg (res, tr) (res', tr')" and "map_of res w = Some (d, c)" and "d \<noteq> []"
  shows "\<exists>d' c'. map_of res' w = Some (d', c') \<and> d' \<noteq> []"
proof -
  from assms(1) have
    "map_of res' w = map_of res w \<or>
     (\<exists>d c. map_of res' w = Some (d, c) \<and> strip d \<noteq> [] \<and> produced cfg tr' w d) \<or>
     (map_of res w = None \<and> map_of res' w = Some ([], []))"
    by (simp add: extends_def)
  then show ?thesis
    using assms(2,3) by (elim disjE) (auto simp: )
qed

lemma request_result:
  assumes "request cfg ev trace = Inr (pm, trace')"
  shows "trace' = trace @ [ev] \<and> pm = answer_map cfg (length trace) ev"
  using assms by (auto simp: request_def answer_map_def split: sum.splits)

text \<open>The two results of the loop over the words of a batch, in closed form.\<close>

lemma reconcile_missing:
  "snd (reconcile ap pm ws res missing) =
     missing @ filter (\<lambda>w. strip (dict_get pm w []) = []) ws"
  by (induction ws arbitrary: res missing) (simp_all add: Let_def)

lemma reconcile_map:
  "map_of (fst (reconcile ap pm ws res missing)) w =
     (if w \<in> set ws \<and> strip (dict_get pm w []) \<noteq> []
      then Some (dict_get pm w [],
                 if ap then post_fix_definition (dict_get pm w []) else dict_get pm w [])
      else map_of res w)"
  by (induction ws arbitrary: res missing) (auto simp: Let_def update_conv')

lemma fill_missing_map:
  "map_of (fill_missing ms res) w =
     (if map_of res w = None \<and> w \<in> set ms then Some ([], []) else map_of res w)"
  by (induction ms arbitrary: res) (auto simp: update_conv')

lemma reconcile_extends:
  assumes "request cfg ev trace = Inr (pm, trace')"
    and "reconcile ap pm (event_words ev) res missing = (res', missing')"
  shows "extends cfg (res, trace) (res', trace')"
proof -
  from request_result [OF assms(1)] have
    tr: "trace' = trace @ [ev]" and pm: "pm = answer_map cfg (length trace) ev"
    by simp_all
  have "map_of res' w = map_of res w \<or>
        (\<exists>d c. map_of res' w = Some (d, c) \<and> strip d \<noteq> [] \<and> produced cfg trace' w d)" for w
  proof (cases "w \<in> set (event_words ev) \<and> strip (dict_get pm w []) \<noteq> []")
    case True
    then have "produced cfg trace' w (dict_get pm w [])"
      unfolding tr pm by (intro produced_last) simp
    then show ?thesis
      using True reconcile_map [of ap pm "event_words ev" res missing w] assms(2) by auto
  next
    case False
    then show ?thesis
      using reconcile_map [of ap pm "event_words ev" res missing w] assms(2) by auto
  qed
  then show ?thesis
    unfolding extends_def using tr by auto
qed

lemma fill_missing_extends: "extends cfg (res, trace) (fill_missing ms res, trace)"
  unfolding extends_def by (auto simp: fill_missing_map)

subsection \<open>One retry round\<close>

lemma retry_round_Cons:
  assumes "retry_round cfg attempt (rb # rbs) res nm trace = Inr r"
  obtains pm res1 nm1 where
    "request cfg (Retry attempt rb) trace = Inr (pm, trace @ [Retry attempt rb])"
    "reconcile (apply_postfixes cfg) pm rb res nm = (res1, nm1)"
    "retry_round cfg attempt rbs res1 nm1 (trace @ [Retry attempt rb]) = Inr r"
proof -
  from assms obtain pm trace1 where
    rq: "request cfg (Retry attempt rb) trace = Inr (pm, trace1)"
    by (auto split: sum.splits)
  then have t1: "trace1 = trace @ [Retry attempt rb]"
    using request_result by blast
  obtain res1 nm1 where rc: "reconcile (apply_postfixes cfg) pm rb res nm = (res1, nm1)"
    by (cases "reconcile (apply_postfixes cfg) pm rb res nm")
  from assms rq rc have "retry_round cfg attempt rbs res1 nm1 trace1 = Inr r"
    by simp
  with rq rc t1 that show thesis by simp
qed

lemma retry_round_extends:
  "retry_round cfg attempt rbs res nm trace = Inr (res', nm', trace') \<Longrightarrow>
   extends cfg (res, trace) (res', trace')"
proof (induction rbs arbitrary: res nm trace)
  case Nil
  then show ?case by (simp add: extends_refl)
next
  case (Cons rb rbs)
  from Cons.prems obtain pm res1 nm1 where
    rq: "request cfg (Retry attempt rb) trace = Inr (pm, trace @ [Retry attempt rb])" and
    rc: "reconcile (apply_postfixes cfg) pm rb res nm = (res1, nm1)" and
    rest: "retry_round cfg attempt rbs res1 nm1 (trace @ [Retry attempt rb]) = Inr (res', nm', trace')"
    by (rule retry_round_Cons)
  have "extends cfg (res, trace) (res1, trace @ [Retry attempt rb])"
    using reconcile_extends [OF rq] rc by simp
  moreover have "extends cfg (res1, trace @ [Retry attempt rb]) (res', trace')"
    using rest by (rule Cons.IH)
  ultimately show ?case by (rule extends_trans)
qed


lemma retry_round_missing:
  "retry_round cfg attempt rbs res nm trace = Inr (res', nm', trace') \<Longrightarrow>
   set nm \<subseteq> set nm' \<and> set nm' \<subseteq> set nm \<union> set (concat rbs)"
proof (induction rbs arbitrary: res nm trace)
  case Nil
  then show ?case by simp
next
  case (Cons rb rbs)
  from Cons.prems obtain pm res1 nm1 where
    rc: "reconcile (apply_postfixes cfg) pm rb res nm = (res1, nm1)" and
    rest: "retry_round cfg attempt rbs res1 nm1 (trace @ [Retry attempt rb]) = Inr (res', nm', trace')"
    by (rule retry_round_Cons)
  have "nm1 = nm @ filter (\<lambda>w. strip (dict_get pm w []) = []) rb"
    using reconcile_missing [of "apply_postfixes cfg" pm rb res nm] rc by simp
  then have "set nm \<subseteq> set nm1" "set nm1 \<subseteq> set nm \<union> set rb"
    by auto
  with Cons.IH [OF rest] show ?case by auto
qed



subsection \<open>The retry loop\<close>

lemma retry_loop_stop:
  "\<not> (missing \<noteq> [] \<and> attempt < max_retries cfg) \<Longrightarrow>
   retry_loop cfg attempt missing res trace = Inr (attempt, missing, res, trace)"
  by (subst retry_loop.simps) auto

lemma retry_loop_step:
  assumes "missing \<noteq> [] \<and> attempt < max_retries cfg"
    and "retry_loop cfg attempt missing res trace = Inr r"
  obtains rbs res1 nm1 trace1 where
    "chunk_list missing (retry_batch_size cfg) = Inr rbs"
    "retry_round cfg (attempt + 1) rbs res [] trace = Inr (res1, nm1, trace1)"
    "retry_loop cfg (attempt + 1) nm1 res1 trace1 = Inr r"
proof -
  from assms(2) have
    "(case chunk_list missing (retry_batch_size cfg) of
        Inl e \<Rightarrow> Inl e
      | Inr rbs \<Rightarrow>
          (case retry_round cfg (attempt + 1) rbs res [] trace of
             Inl e \<Rightarrow> Inl e
           | Inr (res', next_missing, trace') \<Rightarrow>
               retry_loop cfg (attempt + 1) next_missing res' trace')) = Inr r"
    using assms(1) by (subst (asm) retry_loop.simps) simp
  then show thesis
    using that by (auto split: sum.splits prod.splits)
qed

lemma retry_loop_extends:
  "retry_loop cfg attempt missing res trace = Inr (a', m', res', trace') \<Longrightarrow>
   extends cfg (res, trace) (res', trace')"
proof (induction cfg attempt missing res trace rule: retry_loop.induct)
  case (1 cfg attempt missing res trace)
  show ?case
  proof (cases "missing \<noteq> [] \<and> attempt < max_retries cfg")
    case True
    from True "1.prems" obtain rbs res1 nm1 trace1 where
      ch: "chunk_list missing (retry_batch_size cfg) = Inr rbs" and
      rr: "retry_round cfg (attempt + 1) rbs res [] trace = Inr (res1, nm1, trace1)" and
      rl: "retry_loop cfg (attempt + 1) nm1 res1 trace1 = Inr (a', m', res', trace')"
      by (rule retry_loop_step)
    have "extends cfg (res1, trace1) (res', trace')"
      using "1.IH" [OF True ch rr refl refl rl] .
    with retry_round_extends [OF rr] show ?thesis
      by (rule extends_trans)
  next
    case False
    with "1.prems" show ?thesis
      by (simp add: retry_loop_stop extends_refl)
  qed
qed

lemma chunk_list_subset:
  assumes "chunk_list xs n = Inr gs"
  shows "set (concat gs) \<subseteq> set xs"
proof (cases "0 < n")
  case True
  from chunk_list_concat [OF True assms] show ?thesis by simp
next
  case False
  with assms have "gs = []"
    by (auto simp: chunk_list_def split: if_splits)
  then show ?thesis by simp
qed

lemma retry_loop_missing:
  "retry_loop cfg attempt missing res trace = Inr (a', m', res', trace') \<Longrightarrow>
   set m' \<subseteq> set missing"
proof (induction cfg attempt missing res trace rule: retry_loop.induct)
  case (1 cfg attempt missing res trace)
  show ?case
  proof (cases "missing \<noteq> [] \<and> attempt < max_retries cfg")
    case True
    from True "1.prems" obtain rbs res1 nm1 trace1 where
      ch: "chunk_list missing (retry_batch_size cfg) = Inr rbs" and
      rr: "retry_round cfg (attempt + 1) rbs res [] trace = Inr (res1, nm1, trace1)" and
      rl: "retry_loop cfg (attempt + 1) nm1 res1 trace1 = Inr (a', m', res', trace')"
      by (rule retry_loop_step)
    have "set m' \<subseteq> set nm1"
      using "1.IH" [OF True ch rr refl refl rl] .
    moreover have "set nm1 \<subseteq> set (concat rbs)"
      using retry_round_missing [OF rr] by simp
    ultimately show ?thesis
      using chunk_list_subset [OF ch] by blast
  next
    case False
    with "1.prems" show ?thesis
      by (simp add: retry_loop_stop)
  qed
qed






subsection \<open>A batch, and the run over the batches\<close>

lemma process_batch_elim:
  assumes "process_batch cfg batch (res, trace) = Inr (res', trace')"
  obtains pm res1 missing a m res2 where
    "request cfg (Initial batch) trace = Inr (pm, trace @ [Initial batch])"
    "reconcile (apply_postfixes cfg) pm batch res [] = (res1, missing)"
    "retry_loop cfg 0 missing res1 (trace @ [Initial batch]) = Inr (a, m, res2, trace')"
    "res' = fill_missing m res2"
proof -
  from assms obtain pm trace1 where
    rq: "request cfg (Initial batch) trace = Inr (pm, trace1)"
    by (auto simp: process_batch_def split: sum.splits)
  then have t1: "trace1 = trace @ [Initial batch]"
    using request_result by blast
  obtain res1 missing where
    rc: "reconcile (apply_postfixes cfg) pm batch res [] = (res1, missing)"
    by (cases "reconcile (apply_postfixes cfg) pm batch res []")
  from assms rq rc obtain a m res2 where
    "retry_loop cfg 0 missing res1 trace1 = Inr (a, m, res2, trace')"
    "res' = fill_missing m res2"
    by (auto simp: process_batch_def split: sum.splits)
  with rq rc t1 that show thesis by simp
qed

lemma process_batch_extends:
  assumes "process_batch cfg batch (res, trace) = Inr (res', trace')"
  shows "extends cfg (res, trace) (res', trace')"
proof -
  from assms obtain pm res1 missing a m res2 where
    rq: "request cfg (Initial batch) trace = Inr (pm, trace @ [Initial batch])" and
    rc: "reconcile (apply_postfixes cfg) pm batch res [] = (res1, missing)" and
    rl: "retry_loop cfg 0 missing res1 (trace @ [Initial batch]) = Inr (a, m, res2, trace')" and
    fl: "res' = fill_missing m res2"
    by (rule process_batch_elim)
  have a: "extends cfg (res, trace) (res1, trace @ [Initial batch])"
    using reconcile_extends [OF rq] rc by simp
  have b: "extends cfg (res1, trace @ [Initial batch]) (res2, trace')"
    using rl by (rule retry_loop_extends)
  have c: "extends cfg (res2, trace') (res', trace')"
    unfolding fl by (rule fill_missing_extends)
  from extends_trans [OF a b] c show ?thesis
    by (rule extends_trans)
qed



lemma run_batches_extends:
  "run_batches cfg batches (res, trace) = Inr (res', trace') \<Longrightarrow>
   extends cfg (res, trace) (res', trace')"
proof (induction batches arbitrary: res trace)
  case Nil
  then show ?case by (simp add: extends_refl)
next
  case (Cons batch batches)
  from Cons.prems obtain res1 trace1 where
    pb: "process_batch cfg batch (res, trace) = Inr (res1, trace1)" and
    rest: "run_batches cfg batches (res1, trace1) = Inr (res', trace')"
    by (auto split: sum.splits)
  from process_batch_extends [OF pb] Cons.IH [OF rest] show ?case
    by (rule extends_trans)
qed








lemma run_batches_append:
  "run_batches cfg (bs1 @ bs2) st =
     (case run_batches cfg bs1 st of Inl e \<Rightarrow> Inl e | Inr st' \<Rightarrow> run_batches cfg bs2 st')"
  by (induction bs1 arbitrary: st) (simp_all split: sum.splits)

lemma extends_entry:
  assumes "extends cfg (res, trace) (res', trace')" and "map_of res w = Some (d, c)"
  shows "map_of res' w = Some (d, c) \<or>
         (\<exists>d' c'. map_of res' w = Some (d', c') \<and> strip d' \<noteq> [] \<and> produced cfg trace' w d')"
proof -
  from assms(1) have
    "map_of res' w = map_of res w \<or>
     (\<exists>d c. map_of res' w = Some (d, c) \<and> strip d \<noteq> [] \<and> produced cfg trace' w d) \<or>
     (map_of res w = None \<and> map_of res' w = Some ([], []))"
    by (simp add: extends_def)
  with assms(2) show ?thesis by auto
qed

lemma generate_elim:
  assumes "generate cfg words = Inr (res, trace)"
  obtains batches where
    "chunk_list words (batch_size cfg) = Inr batches"
    "run_batches cfg batches ([], []) = Inr (res, trace)"
  using assms by (auto simp: generate_def split: sum.splits)

subsection \<open>The engine follows the retry schedule\<close>









subsection \<open>The results account for the answers\<close>
















text \<open>
  Claim C10. The fill step writes the empty marker exactly for the words of the missing
  list that have no entry, and changes no other entry. An entry with a raw definition
  that is not empty survives the retry loop, the processing of a batch (which ends with
  the fill step) and all later batches of the run: in the later mapping the word has
  the same entry, or an entry with a definition that is not blank, produced by a
  request of the run; in both cases its raw definition is not empty.
\<close>

theorem resolved_entries_are_kept:
  "map_of (fill_missing ms res) w =
     (if map_of res w = None \<and> w \<in> set ms then Some ([], []) else map_of res w) \<and>
   (map_of res w = Some (d, c) \<and> d \<noteq> [] \<and>
    (retry_loop cfg attempt missing res trace = Inr (a', m', res', trace') \<or>
     process_batch cfg batch (res, trace) = Inr (res', trace') \<or>
     (run_batches cfg bs1 st0 = Inr (res, trace) \<and>
      run_batches cfg (bs1 @ bs2) st0 = Inr (res', trace'))) \<longrightarrow>
    (map_of res' w = Some (d, c) \<or>
     (\<exists>d' c'. map_of res' w = Some (d', c') \<and> strip d' \<noteq> [] \<and> produced cfg trace' w d')) \<and>
    (\<exists>d' c'. map_of res' w = Some (d', c') \<and> d' \<noteq> []))"
proof -
  have keep: "(map_of res' w = Some (d, c) \<or>
       (\<exists>d' c'. map_of res' w = Some (d', c') \<and> strip d' \<noteq> [] \<and> produced cfg trace' w d')) \<and>
      (\<exists>d' c'. map_of res' w = Some (d', c') \<and> d' \<noteq> [])"
    if "extends cfg (res, trace) (res', trace')" "map_of res w = Some (d, c)" "d \<noteq> []"
    using extends_entry [OF that(1,2)] extends_nonempty [OF that] by simp
  have "extends cfg (res, trace) (res', trace')"
    if "retry_loop cfg attempt missing res trace = Inr (a', m', res', trace') \<or>
        process_batch cfg batch (res, trace) = Inr (res', trace') \<or>
        (run_batches cfg bs1 st0 = Inr (res, trace) \<and>
         run_batches cfg (bs1 @ bs2) st0 = Inr (res', trace'))"
    using that
  proof (elim disjE conjE)
    assume "run_batches cfg bs1 st0 = Inr (res, trace)"
      "run_batches cfg (bs1 @ bs2) st0 = Inr (res', trace')"
    then have "run_batches cfg bs2 (res, trace) = Inr (res', trace')"
      by (simp add: run_batches_append)
    then show ?thesis by (rule run_batches_extends)
  qed (auto intro: retry_loop_extends process_batch_extends)
  with keep show ?thesis
    by (simp add: fill_missing_map)
qed

text \<open>
  A word resolved in the first batch and requested again, without success, in the
  second batch.
\<close>

theorem resolved_entries_are_kept_witness:
  "run_batches single_cfg [[''comer'']] ([], []) =
     Inr ([(''comer'', ''to eat'', ''to eat'')], [Initial [''comer'']]) \<and>
   run_batches single_cfg ([[''comer'']] @ [[''comer'']]) ([], []) =
     Inr ([(''comer'', ''to eat'', ''to eat'')],
          [Initial [''comer''], Initial [''comer''], Retry 1 [''comer'']]) \<and>
   map_of [(''comer'', ''to eat'', ''to eat'')] ''comer'' = Some (''to eat'', ''to eat'') \<and>
   ''to eat'' \<noteq> [] \<and>
   map_of (fill_missing [''comer''] [(''comer'', ''to eat'', ''to eat'')]) ''comer'' =
     Some (''to eat'', ''to eat'') \<and>
   (\<exists>d' c'. map_of [(''comer'', ''to eat'', ''to eat'')] ''comer'' = Some (d', c') \<and> d' \<noteq> [])"
proof -
  have a: "run_batches single_cfg [[''comer'']] ([], []) =
     Inr ([(''comer'', ''to eat'', ''to eat'')], [Initial [''comer'']])"
    by code_simp
  have b: "run_batches single_cfg ([[''comer'']] @ [[''comer'']]) ([], []) =
     Inr ([(''comer'', ''to eat'', ''to eat'')],
          [Initial [''comer''], Initial [''comer''], Retry 1 [''comer'']])"
    by code_simp
  have c: "map_of [(''comer'', ''to eat'', ''to eat'')] ''comer'' = Some (''to eat'', ''to eat'')"
    by simp
  have d: "''to eat'' \<noteq> []" by simp
  note t = resolved_entries_are_kept [of "[''comer'']" "[(''comer'', ''to eat'', ''to eat'')]"
      "''comer''" "''to eat''" "''to eat''" single_cfg 0 "[]" "[Initial [''comer'']]" 0 "[]"
      "[(''comer'', ''to eat'', ''to eat'')]"
      "[Initial [''comer''], Initial [''comer''], Retry 1 [''comer'']]"
      "[]" "[[''comer'']]" "([], [])" "[[''comer'']]"]
  show ?thesis
    using a b c d t by simp
qed





section \<open>The cleaned definitions of a run\<close>

lemma reconcile_cleaned:
  assumes "cleaned_keeping_it ap res" and "reconcile ap pm ws res missing = (res', missing')"
  shows "cleaned_keeping_it ap res'"
  unfolding cleaned_keeping_it_def
proof (intro allI impI)
  fix w d c
  assume a: "map_of res' w = Some (d, c) \<and> d \<noteq> []"
  show "c = (if ap then post_fix_with True d else d)"
  proof (cases "w \<in> set ws \<and> strip (dict_get pm w []) \<noteq> []")
    case True
    then have "map_of res' w =
        Some (dict_get pm w [], if ap then post_fix_definition (dict_get pm w []) else dict_get pm w [])"
      using reconcile_map [of ap pm ws res missing w] assms(2) by simp
    with a show ?thesis
      by (auto simp: post_fix_definition_def KEEP_IT_PARENS_def)
  next
    case False
    then have "map_of res' w = map_of res w"
      using reconcile_map [of ap pm ws res missing w] assms(2) by auto
    with a have "map_of res w = Some (d, c) \<and> d \<noteq> []" by simp
    with assms(1) show ?thesis
      unfolding cleaned_keeping_it_def by blast
  qed
qed

lemma fill_missing_cleaned:
  assumes "cleaned_keeping_it ap res"
  shows "cleaned_keeping_it ap (fill_missing ms res)"
  using assms unfolding cleaned_keeping_it_def
  by (auto simp: fill_missing_map split: if_splits)

lemma retry_round_cleaned:
  "retry_round cfg k rbs res nm trace = Inr (res', nm', trace') \<Longrightarrow>
   cleaned_keeping_it (apply_postfixes cfg) res \<Longrightarrow> cleaned_keeping_it (apply_postfixes cfg) res'"
proof (induction rbs arbitrary: res nm trace)
  case Nil
  then show ?case by simp
next
  case (Cons rb rbs)
  from Cons.prems(1) obtain pm res1 nm1 where
    rc: "reconcile (apply_postfixes cfg) pm rb res nm = (res1, nm1)" and
    rest: "retry_round cfg k rbs res1 nm1 (trace @ [Retry k rb]) = Inr (res', nm', trace')"
    by (rule retry_round_Cons)
  from reconcile_cleaned [OF Cons.prems(2) rc]
  show ?case by (rule Cons.IH [OF rest])
qed

lemma retry_loop_cleaned:
  "retry_loop cfg attempt missing res trace = Inr (a', m', res', trace') \<Longrightarrow>
   cleaned_keeping_it (apply_postfixes cfg) res \<Longrightarrow> cleaned_keeping_it (apply_postfixes cfg) res'"
proof (induction cfg attempt missing res trace rule: retry_loop.induct)
  case (1 cfg attempt missing res trace)
  show ?case
  proof (cases "missing \<noteq> [] \<and> attempt < max_retries cfg")
    case True
    from True "1.prems"(1) obtain rbs res1 nm1 trace1 where
      ch: "chunk_list missing (retry_batch_size cfg) = Inr rbs" and
      rr: "retry_round cfg (attempt + 1) rbs res [] trace = Inr (res1, nm1, trace1)" and
      rl: "retry_loop cfg (attempt + 1) nm1 res1 trace1 = Inr (a', m', res', trace')"
      by (rule retry_loop_step)
    from retry_round_cleaned [OF rr "1.prems"(2)]
    show ?thesis
      by (rule "1.IH" [OF True ch rr refl refl rl])
  next
    case False
    with "1.prems" show ?thesis
      by (simp add: retry_loop_stop)
  qed
qed

lemma process_batch_cleaned:
  assumes "process_batch cfg batch (res, trace) = Inr (res', trace')"
    and "cleaned_keeping_it (apply_postfixes cfg) res"
  shows "cleaned_keeping_it (apply_postfixes cfg) res'"
proof -
  from assms(1) obtain pm res1 missing a m res2 where
    rc: "reconcile (apply_postfixes cfg) pm batch res [] = (res1, missing)" and
    rl: "retry_loop cfg 0 missing res1 (trace @ [Initial batch]) = Inr (a, m, res2, trace')" and
    fl: "res' = fill_missing m res2"
    by (rule process_batch_elim)
  from reconcile_cleaned [OF assms(2) rc] have "cleaned_keeping_it (apply_postfixes cfg) res1" .
  with rl have "cleaned_keeping_it (apply_postfixes cfg) res2"
    by (rule retry_loop_cleaned)
  then show ?thesis
    unfolding fl by (rule fill_missing_cleaned)
qed

lemma run_batches_cleaned:
  "run_batches cfg batches (res, trace) = Inr (res', trace') \<Longrightarrow>
   cleaned_keeping_it (apply_postfixes cfg) res \<Longrightarrow> cleaned_keeping_it (apply_postfixes cfg) res'"
proof (induction batches arbitrary: res trace)
  case Nil
  then show ?case by simp
next
  case (Cons batch batches)
  from Cons.prems(1) obtain res1 trace1 where
    pb: "process_batch cfg batch (res, trace) = Inr (res1, trace1)" and
    rest: "run_batches cfg batches (res1, trace1) = Inr (res', trace')"
    by (auto split: sum.splits)
  from process_batch_cleaned [OF pb Cons.prems(2)]
  show ?case
    by (rule Cons.IH [OF rest])
qed

lemma generate_cleaned:
  assumes "generate cfg words = Inr (res, trace)"
  shows "cleaned_keeping_it (apply_postfixes cfg) res"
proof -
  from assms obtain batches where
    run: "run_batches cfg batches ([], []) = Inr (res, trace)"
    by (rule generate_elim)
  have "cleaned_keeping_it (apply_postfixes cfg) []"
    by (simp add: cleaned_keeping_it_def)
  with run show ?thesis
    by (rule run_batches_cleaned)
qed

text \<open>
  Claim C6 as stated fails: the handling of \<^verbatim>\<open>(it)\<close> is not an option of the program.
  \<^verbatim>\<open>KEEP_IT_PARENS\<close> is a local constant of \<^verbatim>\<open>post_fix_definition\<close>, which no argument
  of the function and no argument of the command line can set: the cleaner returns
  \<^verbatim>\<open>to like (it)\<close> unchanged, never \<^verbatim>\<open>to like\<close>, and so does a run with the cleaning
  enabled and a run with the cleaning disabled.
\<close>

theorem cleaner_has_no_option:
  "post_fix_definition ''to like (it)'' = ''to like (it)'' \<and>
   post_fix_definition ''to like (it)'' \<noteq> ''to like'' \<and>
   generate gustar_cfg [''gustar''] =
     Inr ([(''gustar'', ''to like (it)'', ''to like (it)'')], [Initial [''gustar'']]) \<and>
   generate gustar_no_clean_cfg [''gustar''] =
     Inr ([(''gustar'', ''to like (it)'', ''to like (it)'')], [Initial [''gustar'']])"
  by code_simp

text \<open>
  Claim C6, as the code has it. The tokens \<^verbatim>\<open>(it)\<close> are always kept: the cleaner returns
  \<^verbatim>\<open>to like (it)\<close> unchanged, and in every run that returns, for every configuration,
  the cleaned definition stored with a raw definition that is not empty is the raw
  definition cleaned with the tokens \<^verbatim>\<open>(it)\<close> kept, or the raw definition itself when
  the cleaning is disabled; for the raw definition \<^verbatim>\<open>to like (it)\<close> it is
  \<^verbatim>\<open>to like (it)\<close>. The other branch of the source, which strips every parenthesis and
  would return \<^verbatim>\<open>to like\<close>, is taken by no run.
\<close>

theorem it_parens_kept_in_every_run:
  "post_fix_definition ''to like (it)'' = ''to like (it)'' \<and>
   (generate cfg words = Inr (res, trace) \<and> map_of res w = Some (d, c) \<and> d \<noteq> [] \<longrightarrow>
      c = (if apply_postfixes cfg then post_fix_with True d else d)) \<and>
   (generate cfg words = Inr (res, trace) \<and> map_of res w = Some (''to like (it)'', c) \<longrightarrow>
      c = ''to like (it)'') \<and>
   post_fix_with False ''to like (it)'' = ''to like''"
proof (intro conjI impI)
  show k: "post_fix_definition ''to like (it)'' = ''to like (it)''"
    by code_simp
  show "post_fix_with False ''to like (it)'' = ''to like''"
    by code_simp
  {
    assume a: "generate cfg words = Inr (res, trace) \<and> map_of res w = Some (d, c) \<and> d \<noteq> []"
    then have "cleaned_keeping_it (apply_postfixes cfg) res"
      using generate_cleaned by blast
    with a show "c = (if apply_postfixes cfg then post_fix_with True d else d)"
      unfolding cleaned_keeping_it_def by blast
  }
  {
    assume a: "generate cfg words = Inr (res, trace) \<and> map_of res w = Some (''to like (it)'', c)"
    then have "cleaned_keeping_it (apply_postfixes cfg) res"
      using generate_cleaned by blast
    with a have "c = (if apply_postfixes cfg then post_fix_with True ''to like (it)''
                      else ''to like (it)'')"
      unfolding cleaned_keeping_it_def by blast
    moreover have "post_fix_with True ''to like (it)'' = ''to like (it)''"
      using k by (simp add: post_fix_definition_def KEEP_IT_PARENS_def)
    ultimately show "c = ''to like (it)''"
      by simp
  }
qed

text \<open>
  A run with the cleaning enabled and a run with the cleaning disabled, both with the
  raw definition \<^verbatim>\<open>to like (it)\<close>.
\<close>

theorem it_parens_kept_in_every_run_witness:
  "generate gustar_cfg [''gustar''] =
     Inr ([(''gustar'', ''to like (it)'', ''to like (it)'')], [Initial [''gustar'']]) \<and>
   generate gustar_no_clean_cfg [''gustar''] =
     Inr ([(''gustar'', ''to like (it)'', ''to like (it)'')], [Initial [''gustar'']]) \<and>
   map_of [(''gustar'', ''to like (it)'', ''to like (it)'')] ''gustar'' =
     Some (''to like (it)'', ''to like (it)'') \<and>
   ''to like (it)'' \<noteq> [] \<and>
   ''to like (it)'' =
     (if apply_postfixes gustar_cfg then post_fix_with True ''to like (it)'' else ''to like (it)'') \<and>
   ''to like (it)'' =
     (if apply_postfixes gustar_no_clean_cfg then post_fix_with True ''to like (it)''
      else ''to like (it)'')"
proof -
  have a: "generate gustar_cfg [''gustar''] =
     Inr ([(''gustar'', ''to like (it)'', ''to like (it)'')], [Initial [''gustar'']])"
    by code_simp
  have b: "generate gustar_no_clean_cfg [''gustar''] =
     Inr ([(''gustar'', ''to like (it)'', ''to like (it)'')], [Initial [''gustar'']])"
    by code_simp
  have m: "map_of [(''gustar'', ''to like (it)'', ''to like (it)'')] ''gustar'' =
     Some (''to like (it)'', ''to like (it)'')"
    by simp
  have n: "''to like (it)'' \<noteq> []" by simp
  note t1 = it_parens_kept_in_every_run [of gustar_cfg "[''gustar'']"
      "[(''gustar'', ''to like (it)'', ''to like (it)'')]" "[Initial [''gustar'']]"
      "''gustar''" "''to like (it)''" "''to like (it)''"]
  note t2 = it_parens_kept_in_every_run [of gustar_no_clean_cfg "[''gustar'']"
      "[(''gustar'', ''to like (it)'', ''to like (it)'')]" "[Initial [''gustar'']]"
      "''gustar''" "''to like (it)''" "''to like (it)''"]
  from t1 a m n have c1: "''to like (it)'' =
     (if apply_postfixes gustar_cfg then post_fix_with True ''to like (it)'' else ''to like (it)'')"
    by blast
  from t2 b m n have c2: "''to like (it)'' =
     (if apply_postfixes gustar_no_clean_cfg then post_fix_with True ''to like (it)''
      else ''to like (it)'')"
    by blast
  show ?thesis
    using a b m n c1 c2 by (intro conjI)
qed


end
